theory Spec2Isabelle
  imports Complex_Main "HOL-Library.Word"
begin

unbundle bit_operations_syntax

section \<open>JavaScript numbers and Node buffers\<close>

text \<open>
  Every number the decoder handles is an integer far below \<open>2 ^ 53\<close>, so a JavaScript
  number is an \<open>int\<close> (the one fractional field, the family B record length, is a
  \<open>rat\<close>).  The bitwise operators first convert their operands with ToInt32 or ToUint32
  (ECMAScript 7.1.6 and 7.1.7); \<open>undefined\<close> and NaN convert to 0.
\<close>

type_synonym byte = "8 word"
type_synonym Buffer = "byte list"

datatype error =
    InvalidBufferSize    \<comment> \<open>RangeError: Invalid dataflash Buffer size\<close>
  | NotInt32             \<comment> \<open>RangeError: Number is not int32\<close>
  | CannotReadWord       \<comment> \<open>RangeError: Cannot read word at addr\<close>
  | MissingNextBlock     \<comment> \<open>RangeError: Missing next block\<close>
  | InvalidChecksum      \<comment> \<open>Error: Invalid checksum for id\<close>
  | InvalidTableHeader   \<comment> \<open>RangeError: Invalid table header address\<close>
  | InvalidTable         \<comment> \<open>Error: Invalid rh850 table\<close>
  | BufferOutOfRange     \<comment> \<open>RangeError of Buffer.alloc or Buffer.copy (ERR_OUT_OF_RANGE)\<close>
  | UndefinedAccess      \<comment> \<open>TypeError: property access on undefined\<close>

definition ToUint32 :: "int \<Rightarrow> int" where
  "ToUint32 x = x mod 2 ^ 32"

definition ToInt32 :: "int \<Rightarrow> int" where
  "ToInt32 x = (let u = x mod 2 ^ 32 in if u \<ge> 2 ^ 31 then u - 2 ^ 32 else u)"

text \<open>The operators \<open>&\<close>, \<open><<\<close>, \<open>>>\<close> and \<open>>>>\<close>.\<close>

definition js_and :: "int \<Rightarrow> int \<Rightarrow> int" where
  "js_and a b = ToInt32 a AND ToInt32 b"

definition js_shl :: "int \<Rightarrow> nat \<Rightarrow> int" where
  "js_shl a n = ToInt32 (ToInt32 a * 2 ^ (n mod 32))"

definition js_shr :: "int \<Rightarrow> nat \<Rightarrow> int" where
  "js_shr a n = ToInt32 a div 2 ^ (n mod 32)"

definition js_ushr :: "int \<Rightarrow> nat \<Rightarrow> int" where
  "js_ushr a n = ToUint32 a div 2 ^ (n mod 32)"

text \<open>Storing a number into a \<open>Uint8Array\<close> element keeps it modulo 256.\<close>

definition ToUint8 :: "int \<Rightarrow> byte" where
  "ToUint8 x = word_of_int x"

text \<open>\<open>buf[i]\<close>: the byte, or \<open>undefined\<close> (here \<open>None\<close>) outside the buffer.\<close>

definition buf_at :: "Buffer \<Rightarrow> int \<Rightarrow> byte option" where
  "buf_at buf i = (if 0 \<le> i \<and> i < int (length buf) then Some (buf ! nat i) else None)"

text \<open>\<open>buf[i]\<close> under ToInt32 or ToUint32: \<open>undefined\<close> becomes 0.\<close>

definition buf_num :: "Buffer \<Rightarrow> int \<Rightarrow> int" where
  "buf_num buf i = (case buf_at buf i of None \<Rightarrow> 0 | Some b \<Rightarrow> uint b)"

text \<open>
  \<open>buf.subarray(start, end)\<close> (Node's Buffer, as \<open>TypedArray.prototype.subarray\<close>): a
  negative index counts from the end, both indices are clamped to the buffer, and the
  view is empty when the end is not after the start.
\<close>

definition subarray :: "Buffer \<Rightarrow> int \<Rightarrow> int \<Rightarrow> Buffer" where
  "subarray buf s e =
     (let n = int (length buf);
          rs = (if s < 0 then max (n + s) 0 else min s n);
          re = (if e < 0 then max (n + e) 0 else min e n)
      in take (nat (re - rs)) (drop (nat rs) buf))"

text \<open>
  \<open>source.copy(target, targetStart, sourceStart, sourceEnd)\<close> (Node's Buffer): a range
  error when \<open>targetStart\<close> or \<open>sourceEnd\<close> is negative or \<open>sourceStart\<close> lies outside
  \<open>0 .. source.length\<close>; nothing is copied when \<open>targetStart\<close> is at or past the end of the
  target or the source range is empty; otherwise as many bytes are copied as the source
  range, the source and the room in the target allow.  The result is the target after
  the copy.
\<close>

definition buf_copy :: "Buffer \<Rightarrow> Buffer \<Rightarrow> int \<Rightarrow> int \<Rightarrow> int \<Rightarrow> error + Buffer" where
  "buf_copy source target targetStart sourceStart sourceEnd =
     (if targetStart < 0 \<or> sourceStart < 0 \<or> sourceStart > int (length source) \<or> sourceEnd < 0
      then Inl BufferOutOfRange
      else if targetStart \<ge> int (length target) \<or> sourceStart \<ge> sourceEnd then Inr target
      else
        let nb = min (min (sourceEnd - sourceStart) (int (length target) - targetStart))
                     (int (length source) - sourceStart);
            bytes = take (nat nb) (drop (nat sourceStart) source)
        in Inr (take (nat targetStart) target @ bytes
                @ drop (nat targetStart + length bytes) target))"

text \<open>\<open>Buffer.alloc(n)\<close>: \<open>n\<close> zero bytes, a range error for a negative size.\<close>

definition buf_alloc :: "int \<Rightarrow> error + Buffer" where
  "buf_alloc n = (if n < 0 then Inl BufferOutOfRange else Inr (replicate (nat n) 0))"

section \<open>The primitive codec (class NecEmulator)\<close>

definition int32ToWord :: "int \<Rightarrow> bool \<Rightarrow> error + Buffer" where
  "int32ToWord num lEndian =
     (if num < - 2147483648 \<or> num > 0xffffffff then Inl NotInt32
      else
        let b0 = ToUint8 (js_and num 0xff);
            b1 = ToUint8 (js_ushr (js_and num 0xffff) 8);
            b2 = ToUint8 (js_ushr (js_and num 0xffffff) 16);
            b3 = ToUint8 (js_ushr num 24)
        in Inr (if lEndian then [b0, b1, b2, b3] else [b3, b2, b1, b0]))"

definition readUint32 :: "Buffer \<Rightarrow> int \<Rightarrow> bool \<Rightarrow> error + int" where
  "readUint32 buf0 addr lEndian =
     (let buf = (if length buf0 < 4
                 then (if lEndian then buf0 @ replicate (4 - length buf0) 0
                       else replicate (4 - length buf0) 0 @ buf0)
                 else buf0)
      in if int (length buf) < addr + 4 then Inl CannotReadWord
         else
           let word = subarray buf addr (addr + 4);
               arr = (if lEndian
                      then [ToUint32 (js_shl (buf_num word 3) 24), ToUint32 (js_shl (buf_num word 2) 16),
                            ToUint32 (js_shl (buf_num word 1) 8), ToUint32 (buf_num word 0)]
                      else [ToUint32 (js_shl (buf_num word 0) 24), ToUint32 (js_shl (buf_num word 1) 16),
                            ToUint32 (js_shl (buf_num word 2) 8), ToUint32 (buf_num word 3)])
           in Inr (sum_list arr))"


text \<open>\<open>Math.ceil(x / 4)\<close> for an integer \<open>x\<close>.\<close>

definition ceil_div4 :: "int \<Rightarrow> int" where
  "ceil_div4 x = - ((- x) div 4)"

text \<open>
  \<open>checkSum8bit(buf, start, end)\<close>: the running sum is NaN (here \<open>None\<close>) once an index
  leaves the buffer, and \<open>NaN & 0xff\<close> is 0.
\<close>

function checkSum8bit_loop :: "Buffer \<Rightarrow> int \<Rightarrow> int \<Rightarrow> int option \<Rightarrow> int option" where
  "checkSum8bit_loop buf i end res =
     (if i \<le> end
      then checkSum8bit_loop buf (i + 1) end
             (case (res, buf_at buf i) of (Some r, Some b) \<Rightarrow> Some (r + uint b) | _ \<Rightarrow> None)
      else res)"
  by pat_completeness auto
termination
  by (relation "measure (\<lambda>(buf, i, end, res). nat (end + 1 - i))") auto

declare checkSum8bit_loop.simps [simp del]

definition checkSum8bit :: "Buffer \<Rightarrow> int \<Rightarrow> int \<Rightarrow> int" where
  "checkSum8bit buf start end =
     (case checkSum8bit_loop buf start end (Some 0) of None \<Rightarrow> 0 | Some res \<Rightarrow> js_and res 0xff)"

section \<open>The data model\<close>

record DataFlashBlock =
  id_blk :: nat
  isValid :: bool
  eraseCount :: int
  rwp :: int
  buf :: Buffer

record EepData =
  id_eep :: int
  widx :: int
  widx_abs :: int
  length_eep :: rat
  data :: "int list"
  dataBuf :: Buffer
  addr :: int

text \<open>
  The fields of class \<open>NecEmulator\<close>.  \<open>List<T>\<close> is an object keyed by numbers: a map.
  The type of the values of \<open>eepData\<close> is a parameter: the records themselves for
  family A, which never touches a record again once it is stored, and references into a
  store of records for family B, which mutates the stored records in place.
\<close>

record 'e NecEmulator =
  dfBuffer :: Buffer
  eepData :: "int \<rightharpoonup> 'e"
  blockData :: "nat \<rightharpoonup> DataFlashBlock"
  nBlocks :: nat
  blockSize :: nat
  activeBlocks :: "nat list"

text \<open>
  The constructor of \<open>NecEmulator\<close>.  With a block size of 0 the remainder is NaN, which
  differs from 0.
\<close>

definition NecEmulator_new :: "Buffer \<Rightarrow> nat \<Rightarrow> error + 'e NecEmulator" where
  "NecEmulator_new dfBuf bs =
     (if length dfBuf = 0 \<or> bs = 0 \<or> length dfBuf mod bs \<noteq> 0 then Inl InvalidBufferSize
      else Inr \<lparr>dfBuffer = dfBuf, eepData = Map.empty, blockData = Map.empty,
                nBlocks = length dfBuf div bs, blockSize = bs, activeBlocks = []\<rparr>)"

section \<open>The erase-order resolver\<close>

text \<open>
  The first loop of \<open>getActiveBlocksOrderedList\<close>, over \<open>i = 0 .. nBlocks - 1\<close>, with the
  object \<open>blocks\<close> and the array \<open>eraseCounts\<close> as its state.
\<close>

fun groupBlocks ::
  "(nat \<rightharpoonup> DataFlashBlock) \<Rightarrow> nat list \<Rightarrow> (int \<rightharpoonup> nat list) \<Rightarrow> int list
   \<Rightarrow> error + (int \<rightharpoonup> nat list) \<times> int list" where
  "groupBlocks bd [] blocks eraseCounts = Inr (blocks, eraseCounts)"
| "groupBlocks bd (i # is) blocks eraseCounts =
     (case bd i of
        None \<Rightarrow> Inl UndefinedAccess
      | Some b \<Rightarrow>
          if \<not> isValid b then groupBlocks bd is blocks eraseCounts
          else
            (case blocks (eraseCount b) of
               None \<Rightarrow> groupBlocks bd is (blocks(eraseCount b \<mapsto> [] @ [i]))
                         (eraseCounts @ [eraseCount b])
             | Some l \<Rightarrow> groupBlocks bd is (blocks(eraseCount b \<mapsto> l @ [i])) eraseCounts))"

text \<open>The \<open>forEach\<close> over the sorted counters; a comparator \<open>a - b\<close> sorts numbers ascending.\<close>

fun concatGroups :: "(int \<rightharpoonup> nat list) \<Rightarrow> int list \<Rightarrow> nat list \<Rightarrow> error + nat list" where
  "concatGroups blocks [] finalBlockOrder = Inr finalBlockOrder"
| "concatGroups blocks (eraseNum # rest) finalBlockOrder =
     (case blocks eraseNum of
        None \<Rightarrow> Inl UndefinedAccess
      | Some l \<Rightarrow> concatGroups blocks rest (finalBlockOrder @ sort l))"

definition getActiveBlocksOrderedList :: "('e, 'z) NecEmulator_scheme \<Rightarrow> error + nat list" where
  "getActiveBlocksOrderedList this =
     (case groupBlocks (blockData this) [0..<nBlocks this] Map.empty [] of
        Inl e \<Rightarrow> Inl e
      | Inr (blocks, eraseCounts) \<Rightarrow> concatGroups blocks (sort eraseCounts) [])"

section \<open>The block catalog\<close>

definition ACTIVE_FLAG :: int where
  "ACTIVE_FLAG = 0x55555555"

text \<open>
  \<open>getBlocksData\<close> has the same text in both families but for the validity test, the
  two header offsets and the factor on the stored write pointer, which are parameters
  here.  The loop over \<open>i = 0 .. nBlocks - 1\<close> has the object \<open>blocks\<close> and the array
  \<open>rwps\<close> as its state.
\<close>

fun catalogBlocks ::
  "('e, 'z) NecEmulator_scheme \<Rightarrow> (Buffer \<Rightarrow> error + bool) \<Rightarrow> int \<Rightarrow> int \<Rightarrow> int \<Rightarrow> nat list
   \<Rightarrow> (nat \<rightharpoonup> DataFlashBlock) \<Rightarrow> int list \<Rightarrow> error + (nat \<rightharpoonup> DataFlashBlock) \<times> int list" where
  "catalogBlocks this valid ecOff rwpOff scale [] blocks rwps = Inr (blocks, rwps)"
| "catalogBlocks this valid ecOff rwpOff scale (i # is) blocks rwps =
     (case buf_alloc (int (blockSize this)) of Inl e \<Rightarrow> Inl e | Inr zeros \<Rightarrow>
     (case buf_copy (dfBuffer this) zeros 0 (int (i * blockSize this)) (int (length (dfBuffer this)))
      of Inl e \<Rightarrow> Inl e | Inr blockBuffer \<Rightarrow>
     (case valid blockBuffer of Inl e \<Rightarrow> Inl e | Inr v \<Rightarrow>
     (case readUint32 (subarray blockBuffer ecOff (ecOff + 3)) 0 True of Inl e \<Rightarrow> Inl e | Inr ec \<Rightarrow>
      let blocks' = blocks(i \<mapsto> \<lparr>id_blk = i, isValid = v, eraseCount = ec, rwp = 0, buf = blockBuffer\<rparr>)
      in if \<not> v then catalogBlocks this valid ecOff rwpOff scale is blocks' rwps
         else
           (case readUint32 (subarray blockBuffer rwpOff (rwpOff + 3)) 0 True of Inl e \<Rightarrow> Inl e
            | Inr r \<Rightarrow> catalogBlocks this valid ecOff rwpOff scale is blocks' (rwps @ [r * scale]))))))"

text \<open>
  The \<open>forEach\<close> over \<open>rwps\<close>: a write pointer that addresses no block of the catalog is
  a property access on \<open>undefined\<close>.
\<close>

fun assignRwps ::
  "nat \<Rightarrow> (nat \<rightharpoonup> DataFlashBlock) \<Rightarrow> int list \<Rightarrow> error + (nat \<rightharpoonup> DataFlashBlock)" where
  "assignRwps bs blocks [] = Inr blocks"
| "assignRwps bs blocks (rwpAddr # rest) =
     (let rwpBlock = nat (rwpAddr div int bs)
      in case blocks rwpBlock of
           None \<Rightarrow> Inl UndefinedAccess
         | Some b \<Rightarrow> assignRwps bs (blocks(rwpBlock \<mapsto> b\<lparr>rwp := rwpAddr\<rparr>)) rest)"

definition getBlocksData ::
  "('e, 'z) NecEmulator_scheme \<Rightarrow> (Buffer \<Rightarrow> error + bool) \<Rightarrow> int \<Rightarrow> int \<Rightarrow> int
   \<Rightarrow> error + (nat \<rightharpoonup> DataFlashBlock)" where
  "getBlocksData this valid ecOff rwpOff scale =
     (case catalogBlocks this valid ecOff rwpOff scale [0..<nBlocks this] Map.empty [] of
        Inl e \<Rightarrow> Inl e
      | Inr (blocks, rwps) \<Rightarrow> assignRwps (blockSize this) blocks rwps)"

section \<open>Serialising a record's words\<close>

text \<open>
  The loop \<open>for (j = 0; j < data.length; j++)\<close> of both families: word \<open>j\<close> is encoded
  little-endian and copied into \<open>dataBuf\<close> at \<open>j * 4\<close>.
\<close>

fun writeWords :: "int list \<Rightarrow> int \<Rightarrow> Buffer \<Rightarrow> error + Buffer" where
  "writeWords [] j dataBuf' = Inr dataBuf'"
| "writeWords (w # ws) j dataBuf' =
     (case int32ToWord w True of Inl e \<Rightarrow> Inl e | Inr word \<Rightarrow>
     (case buf_copy word dataBuf' (j * 4) 0 (int (length word)) of Inl e \<Rightarrow> Inl e
      | Inr dataBuf'' \<Rightarrow> writeWords ws (j + 1) dataBuf''))"

section \<open>Family A: class Emu_V850e2\<close>

definition BLOCK_SIZE_A :: nat where
  "BLOCK_SIZE_A = 0x1000"

definition REF_END_FLAG :: int where
  "REF_END_FLAG = 0xffffffff"

definition isValidBlock_A :: "('e, 'z) NecEmulator_scheme \<Rightarrow> Buffer \<Rightarrow> error + bool" where
  "isValidBlock_A this blockBuffer =
     (if length blockBuffer \<noteq> blockSize this then Inr False
      else
        (case readUint32 blockBuffer 0x10 True of Inl e \<Rightarrow> Inl e | Inr w1 \<Rightarrow>
         if ACTIVE_FLAG \<noteq> w1 then Inr False
         else
           (case readUint32 blockBuffer 0x18 True of Inl e \<Rightarrow> Inl e | Inr w2 \<Rightarrow>
            if ACTIVE_FLAG \<noteq> w2 then Inr False
            else
              (case readUint32 blockBuffer 0x20 True of Inl e \<Rightarrow> Inl e | Inr w3 \<Rightarrow>
               Inr (ACTIVE_FLAG = w3)))))"

definition getBlocksData_A ::
  "('e, 'z) NecEmulator_scheme \<Rightarrow> error + (nat \<rightharpoonup> DataFlashBlock)" where
  "getBlocksData_A this = getBlocksData this (isValidBlock_A this) 0x28 0x30 2"

text \<open>The do-while loop of \<open>getOverlapData\<close>.\<close>

function getOverlapData_loop ::
  "Buffer \<Rightarrow> int \<Rightarrow> int \<Rightarrow> int \<Rightarrow> int list \<Rightarrow> error + int list" where
  "getOverlapData_loop blockBuf fixL startL ofs endData =
     (case readUint32 blockBuf (int (length blockBuf) - 8 - ofs * 8) True of Inl e \<Rightarrow> Inl e
      | Inr word \<Rightarrow>
          if int (length (endData @ [word])) + startL < fixL
          then getOverlapData_loop blockBuf fixL startL (ofs + 1) (endData @ [word])
          else Inr (endData @ [word]))"
  by pat_completeness auto
termination
  by (relation "measure (\<lambda>(blockBuf, fixL, startL, ofs, endData).
        nat (fixL - startL - int (length endData)))") auto

declare getOverlapData_loop.simps [simp del]

definition getOverlapData :: "Buffer \<Rightarrow> int \<Rightarrow> int \<Rightarrow> error + int list" where
  "getOverlapData blockBuf fixL startL = getOverlapData_loop blockBuf fixL startL 0 []"

text \<open>
  The do-while loop of \<open>readDataEntry\<close>; \<open>addr\<close> is \<open>(widx - ofs) * 8\<close> at the head of
  every iteration.
\<close>

function readDataEntry_A_loop ::
  "('e, 'z) NecEmulator_scheme \<Rightarrow> int \<Rightarrow> int \<Rightarrow> nat option \<Rightarrow> int \<Rightarrow> int \<Rightarrow> int list
   \<Rightarrow> error + int list" where
  "readDataEntry_A_loop this wIdx rwP nextBlock fixL ofs dat =
     (if (wIdx - ofs) * 8 = rwP
      then
        (case nextBlock of
           Some nb \<Rightarrow>
             (case blockData this nb of None \<Rightarrow> Inl UndefinedAccess | Some b \<Rightarrow>
             (case getOverlapData (buf b) fixL (int (length dat)) of Inl e \<Rightarrow> Inl e
              | Inr finishingData \<Rightarrow> Inr (dat @ finishingData)))
         | None \<Rightarrow> Inl MissingNextBlock)
      else
        (case readUint32 (dfBuffer this) ((wIdx - ofs) * 8) True of Inl e \<Rightarrow> Inl e
         | Inr word \<Rightarrow>
             if int (length (dat @ [word])) < fixL
             then readDataEntry_A_loop this wIdx rwP nextBlock fixL (ofs + 1) (dat @ [word])
             else Inr (dat @ [word])))"
  by pat_completeness auto
termination
  by (relation "measure (\<lambda>(this, wIdx, rwP, nextBlock, fixL, ofs, dat).
        nat (fixL - int (length dat)))") auto

declare readDataEntry_A_loop.simps [simp del]

text \<open>The \<open>forEach\<close> that subtracts every word from the checksum, \<open>>>> 0\<close> after each.\<close>

definition checksum_A :: "int \<Rightarrow> int list \<Rightarrow> int" where
  "checksum_A idn dat = foldl (\<lambda>cks word. js_ushr (cks - word) 0) (0xffffffff - idn) dat"

definition readDataEntry_A ::
  "('e, 'z) NecEmulator_scheme \<Rightarrow> int \<Rightarrow> int \<Rightarrow> int \<Rightarrow> int \<Rightarrow> nat option \<Rightarrow> error + int list" where
  "readDataEntry_A this wIdx idn cksRef rwP nextBlock =
     (case readUint32 (dfBuffer this) ((wIdx - 0) * 8) True of Inl e \<Rightarrow> Inl e | Inr word \<Rightarrow>
      let fixL = ceil_div4 (js_and word 0xffff)
      in (case readDataEntry_A_loop this wIdx rwP nextBlock fixL 0 [] of Inl e \<Rightarrow> Inl e
          | Inr dat \<Rightarrow>
              if checksum_A idn dat \<noteq> cksRef then Inl InvalidChecksum else Inr dat))"

text \<open>
  One reference slot of \<open>populateBlockData\<close>: the body of the while loop up to the read
  of the next reference.  Whatever \<open>readDataEntry\<close> throws is caught and leaves
  \<open>dataEntry\<close> empty.
\<close>

definition storeSlot_A ::
  "(EepData, 'z) NecEmulator_scheme \<Rightarrow> nat \<Rightarrow> nat \<Rightarrow> nat option \<Rightarrow> DataFlashBlock \<Rightarrow> nat \<Rightarrow> int
   \<Rightarrow> (int \<rightharpoonup> EepData) \<Rightarrow> error + (int \<rightharpoonup> EepData)" where
  "storeSlot_A this block blockId nextBlock b i word eep =
     (let refAddr = int (i * 0x10 + blockSize this * block);
          wIdx = js_shr word 16;
          idn = js_and word 0xffff
      in (case readUint32 (buf b) (int (i * 0x10 + 0x08)) True of Inl e \<Rightarrow> Inl e | Inr cksRef \<Rightarrow>
          let dataEntry = (case readDataEntry_A this wIdx idn cksRef (rwp b) nextBlock of
                             Inl e \<Rightarrow> [] | Inr d \<Rightarrow> d)
          in if dataEntry \<noteq> []
             then
               (case buf_alloc (int (length dataEntry) * 4) of Inl e \<Rightarrow> Inl e | Inr zeros \<Rightarrow>
               (case writeWords dataEntry 0 zeros of Inl e \<Rightarrow> Inl e | Inr dataBuf' \<Rightarrow>
                  Inr (eep(idn \<mapsto> \<lparr>id_eep = idn, widx = wIdx,
                         widx_abs = wIdx + int (blockSize this * blockId),
                         length_eep = of_nat (length dataEntry), data = dataEntry,
                         dataBuf = dataBuf', addr = refAddr\<rparr>))))
             else Inr eep))"

text \<open>The while loop of \<open>populateBlockData\<close>, from slot \<open>i\<close> whose first word is \<open>word\<close>.\<close>

lemma readUint32_Inr_bound:
  "readUint32 b a le = Inr w \<Longrightarrow> a + 4 \<le> int (max 4 (length b))"
  by (auto simp: readUint32_def Let_def split: if_splits)

function populateBlockData_A_loop ::
  "(EepData, 'z) NecEmulator_scheme \<Rightarrow> nat \<Rightarrow> nat \<Rightarrow> nat option \<Rightarrow> DataFlashBlock \<Rightarrow> nat \<Rightarrow> int
   \<Rightarrow> (int \<rightharpoonup> EepData) \<Rightarrow> error + (int \<rightharpoonup> EepData)" where
  "populateBlockData_A_loop this block blockId nextBlock b i word eep =
     (if word = REF_END_FLAG then Inr eep
      else
        (case storeSlot_A this block blockId nextBlock b i word eep of Inl e \<Rightarrow> Inl e
         | Inr eep' \<Rightarrow>
        (case readUint32 (buf b) (int ((i + 1) * 0x10)) True of Inl e \<Rightarrow> Inl e | Inr word' \<Rightarrow>
           if rwp b \<noteq> 0 \<and> int ((i + 1) * 0x10 + block * blockSize this) \<ge> rwp b then Inr eep'
           else populateBlockData_A_loop this block blockId nextBlock b (i + 1) word' eep')))"
  by pat_completeness auto
termination
  by (relation "measure (\<lambda>(this, block, blockId, nextBlock, b, i, word, eep).
        max 4 (length (buf b)) + 16 - 16 * i)")
     (auto dest!: readUint32_Inr_bound)

declare populateBlockData_A_loop.simps [simp del]

definition populateBlockData_A ::
  "(EepData, 'z) NecEmulator_scheme \<Rightarrow> nat \<Rightarrow> error + (EepData, 'z) NecEmulator_scheme" where
  "populateBlockData_A this blockId =
     (if blockId \<ge> length (activeBlocks this) then Inl UndefinedAccess
      else
        let block = activeBlocks this ! blockId;
            isLastBlock = (block = last (activeBlocks this));
            nextBlock = (if isLastBlock then None
                         else if blockId + 1 < length (activeBlocks this)
                              then Some (activeBlocks this ! (blockId + 1)) else None)
        in (case blockData this block of None \<Rightarrow> Inl UndefinedAccess | Some b \<Rightarrow>
           (case readUint32 (buf b) 0x40 True of Inl e \<Rightarrow> Inl e | Inr word \<Rightarrow>
           (case populateBlockData_A_loop this block blockId nextBlock b 4 word (eepData this) of
              Inl e \<Rightarrow> Inl e
            | Inr eep \<Rightarrow> Inr (this\<lparr>eepData := eep\<rparr>)))))"

text \<open>The loop of the constructor over the indices of \<open>activeBlocks\<close>.\<close>

fun populateAll_A ::
  "(EepData, 'z) NecEmulator_scheme \<Rightarrow> nat list \<Rightarrow> error + (EepData, 'z) NecEmulator_scheme" where
  "populateAll_A this [] = Inr this"
| "populateAll_A this (i # is) =
     (case populateBlockData_A this i of Inl e \<Rightarrow> Inl e | Inr this' \<Rightarrow> populateAll_A this' is)"

definition Emu_V850e2 :: "Buffer \<Rightarrow> error + EepData NecEmulator" where
  "Emu_V850e2 dfBuf =
     (case NecEmulator_new dfBuf BLOCK_SIZE_A of Inl e \<Rightarrow> Inl e | Inr this0 \<Rightarrow>
     (case getBlocksData_A this0 of Inl e \<Rightarrow> Inl e | Inr bd \<Rightarrow>
     (case getActiveBlocksOrderedList (this0\<lparr>blockData := bd\<rparr>) of Inl e \<Rightarrow> Inl e | Inr ab \<Rightarrow>
        populateAll_A (this0\<lparr>blockData := bd, activeBlocks := ab\<rparr>) [0..<length ab])))"

section \<open>Family B: class Emu_RH850\<close>

definition BLOCK_SIZE_B :: nat where
  "BLOCK_SIZE_B = 0x800"

record RhTable =
  blockSize_tbl :: int
  prepBlocks_min :: int
  pointer_rom :: int
  pointer_ram :: int
  entries :: int
  eraseSuspend :: int

text \<open>
  The records of \<open>eepData\<close> are objects that \<open>readDataEntry\<close> mutates through a
  reference it takes from \<open>eepData\<close>, so they live in an explicit store: \<open>heap\<close> holds
  the objects, a reference is an index into it, and \<open>eepData\<close> maps an id to a reference.
\<close>

record Emu_RH850 = "nat NecEmulator" +
  cfBuf :: Buffer
  tableHeaderAddr :: int
  dataTable :: RhTable
  heap :: "EepData list"

definition getDataTable :: "Buffer \<Rightarrow> int \<Rightarrow> error + RhTable" where
  "getDataTable cf hdr =
     (if int (length cf) < hdr + 0x10 then Inl InvalidTableHeader
      else
        (case readUint32 cf hdr True of Inl e \<Rightarrow> Inl e | Inr w0 \<Rightarrow>
        (case readUint32 cf (hdr + 0x04) True of Inl e \<Rightarrow> Inl e | Inr w1 \<Rightarrow>
        (case readUint32 cf (hdr + 0x08) True of Inl e \<Rightarrow> Inl e | Inr w2 \<Rightarrow>
        (case readUint32 cf (hdr + 0x0c) True of Inl e \<Rightarrow> Inl e | Inr w3 \<Rightarrow>
           Inr \<lparr>blockSize_tbl = js_and w0 0xffff, prepBlocks_min = js_shr w0 0x10,
                pointer_rom = w1, pointer_ram = w2,
                entries = js_and w3 0xffff, eraseSuspend = js_shr w3 0x10\<rparr>)))))"

text \<open>
  The loop of \<open>populateDataInfoWTable\<close> over the copied table, \<open>i\<close> in steps of 4.  The
  new record is stored under its id before the length is checked.
\<close>

function populateDataInfoWTable_loop ::
  "Buffer \<Rightarrow> nat \<Rightarrow> (int \<rightharpoonup> nat) \<Rightarrow> EepData list \<Rightarrow> error + (int \<rightharpoonup> nat) \<times> EepData list" where
  "populateDataInfoWTable_loop table i eep hp =
     (if i < length table
      then
        (case readUint32 table (int i) True of Inl e \<Rightarrow> Inl e | Inr word \<Rightarrow>
         let len = js_shr word 16;
             idn = js_and word 0xffff
         in (case buf_alloc (len * 4) of Inl e \<Rightarrow> Inl e | Inr zeros \<Rightarrow>
             let eep' = eep(idn \<mapsto> length hp);
                 hp' = hp @ [\<lparr>id_eep = idn, widx = 0, widx_abs = 0, length_eep = of_int len / 4,
                               data = [], dataBuf = zeros, addr = 0\<rparr>]
             in if len > int BLOCK_SIZE_B then Inl InvalidTable
                else populateDataInfoWTable_loop table (i + 4) eep' hp'))
      else Inr (eep, hp))"
  by pat_completeness auto
termination
  by (relation "measure (\<lambda>(table, i, eep, hp). length table - i)") auto

declare populateDataInfoWTable_loop.simps [simp del]

definition populateDataInfoWTable :: "Emu_RH850 \<Rightarrow> error + Emu_RH850" where
  "populateDataInfoWTable this =
     (case buf_alloc (entries (dataTable this) * 4) of Inl e \<Rightarrow> Inl e | Inr zeros \<Rightarrow>
     (case buf_copy (cfBuf this) zeros 0 (pointer_rom (dataTable this))
             (pointer_rom (dataTable this) + entries (dataTable this) * 4)
      of Inl e \<Rightarrow> Inl e | Inr table \<Rightarrow>
     (case populateDataInfoWTable_loop table 0 (eepData this) (heap this) of Inl e \<Rightarrow> Inl e
      | Inr (eep, hp) \<Rightarrow> Inr (this\<lparr>eepData := eep, heap := hp\<rparr>))))"

definition isValidBlock_B :: "Buffer \<Rightarrow> error + bool" where
  "isValidBlock_B b =
     (case readUint32 b 0x4 True of Inl e \<Rightarrow> Inl e | Inr w1 \<Rightarrow>
      if ACTIVE_FLAG \<noteq> w1 then Inr False
      else
        (case readUint32 b 0x8 True of Inl e \<Rightarrow> Inl e | Inr w2 \<Rightarrow>
         if ACTIVE_FLAG \<noteq> w2 then Inr False
         else
           (case readUint32 b 0xc True of Inl e \<Rightarrow> Inl e | Inr w3 \<Rightarrow>
            if ACTIVE_FLAG \<noteq> w3 then Inr False
            else Inr (0xff = checkSum8bit b 0x10 0x13 \<and> 0xff = checkSum8bit b 0x14 0x17))))"

definition getBlocksData_B ::
  "('e, 'z) NecEmulator_scheme \<Rightarrow> error + (nat \<rightharpoonup> DataFlashBlock)" where
  "getBlocksData_B this = getBlocksData this isValidBlock_B 0x10 0x14 1"

text \<open>The loop of \<open>readDataEntry\<close> that reads \<open>nWord\<close> words downwards from \<open>widx\<close>.\<close>

function readWords_B :: "Buffer \<Rightarrow> int \<Rightarrow> int \<Rightarrow> int \<Rightarrow> int list \<Rightarrow> error + int list" where
  "readWords_B b wIdx nWord j dat =
     (if j < nWord
      then
        (case readUint32 b (wIdx - j * 4) True of Inl e \<Rightarrow> Inl e
         | Inr word \<Rightarrow> readWords_B b wIdx nWord (j + 1) (dat @ [word]))
      else Inr dat)"
  by pat_completeness auto
termination
  by (relation "measure (\<lambda>(b, wIdx, nWord, j, dat). nat (nWord - j))") auto

declare readWords_B.simps [simp del]

text \<open>
  \<open>readDataEntry\<close> returns the reference it took from \<open>eepData\<close>, after it has pushed
  the words onto the \<open>data\<close> of the object behind it and rewritten its \<open>dataBuf\<close>,
  \<open>widx\<close>, \<open>widx_abs\<close> and \<open>addr\<close>; \<open>None\<close> is \<open>undefined\<close>.
\<close>

definition readDataEntry_B ::
  "Emu_RH850 \<Rightarrow> DataFlashBlock \<Rightarrow> int \<Rightarrow> error + Emu_RH850 \<times> nat option" where
  "readDataEntry_B this block refAddr =
     (let refAbsAddr = refAddr + int BLOCK_SIZE_B * int (id_blk block)
      in (case readUint32 (buf block) (refAddr - 0x4) True of Inl e \<Rightarrow> Inl e | Inr checkW1 \<Rightarrow>
         (case readUint32 (buf block) (refAddr - 0x8) True of Inl e \<Rightarrow> Inl e | Inr checkW2 \<Rightarrow>
         (case readUint32 (buf block) (refAddr - 0xc) True of Inl e \<Rightarrow> Inl e | Inr checkW3 \<Rightarrow>
         (case readUint32 (buf block) refAddr True of Inl e \<Rightarrow> Inl e | Inr word \<Rightarrow>
          let wIdx = js_shr word 0x10;
              idn = js_and word 0xffff
          in if checkW1 \<noteq> ACTIVE_FLAG \<or> checkW2 \<noteq> ACTIVE_FLAG \<or> checkW3 \<noteq> ACTIVE_FLAG
                \<or> wIdx \<ge> int BLOCK_SIZE_B
             then Inr (this, None)
             else
               (case eepData this idn of None \<Rightarrow> Inr (this, None) | Some ref \<Rightarrow>
                if ref \<ge> length (heap this) then Inl UndefinedAccess
                else
                  let entry = heap this ! ref
                  in if length_eep entry > of_nat BLOCK_SIZE_B then Inr (this, None)
                     else
                       (case readWords_B (buf block) wIdx \<lceil>length_eep entry\<rceil> 0 (data entry) of
                          Inl e \<Rightarrow> Inl e | Inr dat \<Rightarrow>
                       (case writeWords dat 0 (dataBuf entry) of Inl e \<Rightarrow> Inl e | Inr dataBuf' \<Rightarrow>
                          Inr (this\<lparr>heap := (heap this)[ref := entry\<lparr>data := dat, dataBuf := dataBuf',
                                        widx := wIdx, widx_abs := wIdx + int BLOCK_SIZE_B * int (id_blk block),
                                        addr := refAbsAddr\<rparr>]\<rparr>,
                               Some ref)))))))))"

lemma readDataEntry_B_Inr_bound:
  "readDataEntry_B this block refAddr = Inr r \<Longrightarrow> refAddr + 4 \<le> int (max 4 (length (buf block)))"
  by (auto simp: readDataEntry_B_def Let_def split: sum.splits dest: readUint32_Inr_bound)

text \<open>The while loop of \<open>findActiveRwp\<close>.\<close>

function findActiveRwp_loop ::
  "Emu_RH850 \<Rightarrow> DataFlashBlock \<Rightarrow> int \<Rightarrow> int \<Rightarrow> rat \<Rightarrow> error + Emu_RH850 \<times> int" where
  "findActiveRwp_loop this page rwP rwp_hypo dwp =
     (if of_int rwP < dwp
      then
        (case readDataEntry_B this page (rwP - 4) of Inl e \<Rightarrow> Inl e
         | Inr (this', dataEntry) \<Rightarrow>
             (case dataEntry of
                None \<Rightarrow> findActiveRwp_loop this' page (rwP + 0x10) rwp_hypo dwp
              | Some ref \<Rightarrow>
                  if of_int (widx (heap this' ! ref)) = dwp
                  then findActiveRwp_loop this' page (rwP + 0x10) rwP
                         (dwp - length_eep (heap this' ! ref) * 4)
                  else findActiveRwp_loop this' page (rwP + 0x10) rwp_hypo dwp))
      else Inr (this, rwp_hypo))"
  by pat_completeness auto
termination
  by (relation "measure (\<lambda>(this, page, rwP, rwp_hypo, dwp).
        nat (int (max 4 (length (buf page))) + 16 - rwP))")
     (auto dest!: readDataEntry_B_Inr_bound)

declare findActiveRwp_loop.simps [simp del]

definition findActiveRwp :: "Emu_RH850 \<Rightarrow> DataFlashBlock \<Rightarrow> error + Emu_RH850 \<times> int" where
  "findActiveRwp this page = findActiveRwp_loop this page 0x28 0x28 0x7f8"

text \<open>The for loop of \<open>populateBlockData\<close>: \<open>i\<close> from \<open>rwp - 4\<close> down in steps of 0x10.\<close>

function populateBlockData_B_loop ::
  "Emu_RH850 \<Rightarrow> DataFlashBlock \<Rightarrow> int \<Rightarrow> error + Emu_RH850" where
  "populateBlockData_B_loop this block i =
     (if i > 0x20
      then
        (case readDataEntry_B this block i of Inl e \<Rightarrow> Inl e
         | Inr (this', dataEntry) \<Rightarrow>
             (case dataEntry of
                None \<Rightarrow> populateBlockData_B_loop this' block (i - 0x10)
              | Some ref \<Rightarrow>
                  (case eepData this' (id_eep (heap this' ! ref)) of
                     None \<Rightarrow> Inl UndefinedAccess
                   | Some ref' \<Rightarrow>
                       if data (heap this' ! ref') \<noteq> []
                       then populateBlockData_B_loop this' block (i - 0x10)
                       else populateBlockData_B_loop
                              (this'\<lparr>eepData := (eepData this')(id_eep (heap this' ! ref) \<mapsto> ref)\<rparr>)
                              block (i - 0x10))))
      else Inr this)"
  by pat_completeness auto
termination
  by (relation "measure (\<lambda>(this, block, i). nat i)") auto

declare populateBlockData_B_loop.simps [simp del]

text \<open>
  \<open>populateBlockData\<close>: a write pointer of 0 is first recovered by \<open>findActiveRwp\<close> and
  stored in the block of the catalog.
\<close>

definition populateBlockData_B :: "Emu_RH850 \<Rightarrow> nat \<Rightarrow> error + Emu_RH850" where
  "populateBlockData_B this blockId =
     (if blockId \<ge> length (activeBlocks this) then Inl UndefinedAccess
      else
        let blockNum = activeBlocks this ! blockId
        in (case blockData this blockNum of None \<Rightarrow> Inl UndefinedAccess | Some block \<Rightarrow>
            if rwp block = 0
            then
              (case findActiveRwp this block of Inl e \<Rightarrow> Inl e | Inr (this', r) \<Rightarrow>
                 populateBlockData_B_loop
                   (this'\<lparr>blockData := (blockData this')(blockNum \<mapsto> block\<lparr>rwp := r\<rparr>)\<rparr>)
                   (block\<lparr>rwp := r\<rparr>) (r - 4))
            else populateBlockData_B_loop this block (rwp block - 4)))"

fun populateAll_B :: "Emu_RH850 \<Rightarrow> nat list \<Rightarrow> error + Emu_RH850" where
  "populateAll_B this [] = Inr this"
| "populateAll_B this (i # is) =
     (case populateBlockData_B this i of Inl e \<Rightarrow> Inl e | Inr this' \<Rightarrow> populateAll_B this' is)"

text \<open>
  The constructor, in two halves: what runs before the block catalog is built (the
  constructor of the base class, \<open>getDataTable\<close> and \<open>populateDataInfoWTable\<close>), and the
  scan of the blocks.
\<close>

definition Emu_RH850_setup :: "Buffer \<Rightarrow> Buffer \<Rightarrow> int \<Rightarrow> error + Emu_RH850" where
  "Emu_RH850_setup dfBuf cfBuffer hdr =
     (case NecEmulator_new dfBuf BLOCK_SIZE_B of Inl e \<Rightarrow> Inl e | Inr base \<Rightarrow>
     (case getDataTable cfBuffer hdr of Inl e \<Rightarrow> Inl e | Inr tbl \<Rightarrow>
        populateDataInfoWTable
          (NecEmulator.extend base
             (Emu_RH850.fields cfBuffer hdr tbl []))))"

definition Emu_RH850_scan :: "Emu_RH850 \<Rightarrow> error + Emu_RH850" where
  "Emu_RH850_scan this =
     (case getBlocksData_B this of Inl e \<Rightarrow> Inl e | Inr bd \<Rightarrow>
     (case getActiveBlocksOrderedList (this\<lparr>blockData := bd\<rparr>) of Inl e \<Rightarrow> Inl e | Inr ab \<Rightarrow>
        populateAll_B (this\<lparr>blockData := bd, activeBlocks := ab\<rparr>) [0..<length ab]))"

definition Emu_RH850_new :: "Buffer \<Rightarrow> Buffer \<Rightarrow> int \<Rightarrow> error + Emu_RH850" where
  "Emu_RH850_new dfBuf cfBuffer hdr =
     (case Emu_RH850_setup dfBuf cfBuffer hdr of Inl e \<Rightarrow> Inl e | Inr this \<Rightarrow> Emu_RH850_scan this)"

section \<open>Reference values\<close>

text \<open>
  The unsigned value of the four bytes at offset \<open>a\<close> read as a little-endian word, and
  of the three bytes at \<open>a\<close> read little-endian.
\<close>

definition le32 :: "Buffer \<Rightarrow> nat \<Rightarrow> int" where
  "le32 bf a = uint (bf ! a) + 2 ^ 8 * uint (bf ! (a + 1)) + 2 ^ 16 * uint (bf ! (a + 2))
                + 2 ^ 24 * uint (bf ! (a + 3))"

definition le24 :: "Buffer \<Rightarrow> nat \<Rightarrow> int" where
  "le24 bf a = uint (bf ! a) + 2 ^ 8 * uint (bf ! (a + 1)) + 2 ^ 16 * uint (bf ! (a + 2))"

text \<open>The 8-bit additive checksum of the bytes at offsets \<open>lo .. hi\<close>.\<close>

definition sum8 :: "Buffer \<Rightarrow> nat \<Rightarrow> nat \<Rightarrow> int" where
  "sum8 b lo hi = (\<Sum>k \<leftarrow> [lo..<Suc hi]. uint (b ! k)) mod 256"

text \<open>
  For a block catalog: whether block \<open>i\<close> is valid, its erase counter, the valid indices
  of a list that carry the counter \<open>e\<close>, and the order "lower counter first, lower
  index first among equal counters".
\<close>

definition validIdx :: "(nat \<rightharpoonup> DataFlashBlock) \<Rightarrow> nat \<Rightarrow> bool" where
  "validIdx bd i = (case bd i of None \<Rightarrow> False | Some b \<Rightarrow> isValid b)"

definition ecOf :: "(nat \<rightharpoonup> DataFlashBlock) \<Rightarrow> nat \<Rightarrow> int" where
  "ecOf bd i = (case bd i of None \<Rightarrow> 0 | Some b \<Rightarrow> eraseCount b)"

definition eraseGroup :: "(nat \<rightharpoonup> DataFlashBlock) \<Rightarrow> nat list \<Rightarrow> int \<Rightarrow> nat list" where
  "eraseGroup bd P e = filter (\<lambda>i. validIdx bd i \<and> ecOf bd i = e) P"

definition erasePrecedes :: "(nat \<rightharpoonup> DataFlashBlock) \<Rightarrow> nat \<Rightarrow> nat \<Rightarrow> bool" where
  "erasePrecedes bd i j = (ecOf bd i < ecOf bd j \<or> (ecOf bd i = ecOf bd j \<and> i < j))"

text \<open>A catalog of four blocks, the third of them invalid.\<close>

definition catalog_example :: "unit NecEmulator" where
  "catalog_example =
     \<lparr>dfBuffer = [], eepData = Map.empty,
      blockData = [0 \<mapsto> \<lparr>id_blk = 0, isValid = True, eraseCount = 5, rwp = 0, buf = []\<rparr>,
                   1 \<mapsto> \<lparr>id_blk = 1, isValid = True, eraseCount = 2, rwp = 0, buf = []\<rparr>,
                   2 \<mapsto> \<lparr>id_blk = 2, isValid = False, eraseCount = 1, rwp = 0, buf = []\<rparr>,
                   3 \<mapsto> \<lparr>id_blk = 3, isValid = True, eraseCount = 5, rwp = 0, buf = []\<rparr>],
      nBlocks = 4, blockSize = 0, activeBlocks = []\<rparr>"

text \<open>An instance of family A with no image, for statements about a single block window.\<close>

definition window_example :: "EepData NecEmulator" where
  "window_example =
     \<lparr>dfBuffer = [], eepData = Map.empty, blockData = Map.empty,
      nBlocks = 0, blockSize = BLOCK_SIZE_A, activeBlocks = []\<rparr>"

text \<open>Block \<open>i\<close> of an image cut into blocks of \<open>bs\<close> bytes.\<close>

definition window :: "Buffer \<Rightarrow> nat \<Rightarrow> nat \<Rightarrow> Buffer" where
  "window df bs i = take bs (drop (i * bs) df)"

text \<open>The last write pointer of a list that addresses block \<open>k\<close>, if there is one.\<close>

definition lastRwp :: "nat \<Rightarrow> int list \<Rightarrow> nat \<Rightarrow> int option" where
  "lastRwp bs rwps k =
     (case filter (\<lambda>r. nat (r div int bs) = k) rwps of [] \<Rightarrow> None | r # rs \<Rightarrow> Some (last (r # rs)))"

text \<open>Whether the validity test accepts block \<open>i\<close> of an image.\<close>

definition validWindow :: "(Buffer \<Rightarrow> error + bool) \<Rightarrow> Buffer \<Rightarrow> nat \<Rightarrow> nat \<Rightarrow> bool" where
  "validWindow valid df bs i = (valid (window df bs i) = Inr True)"

text \<open>
  Block \<open>i\<close> as the first loop of \<open>getBlocksData\<close> leaves it, and the write pointer it
  pushes for a valid block.
\<close>

definition rawBlock ::
  "(Buffer \<Rightarrow> error + bool) \<Rightarrow> int \<Rightarrow> Buffer \<Rightarrow> nat \<Rightarrow> nat \<Rightarrow> DataFlashBlock" where
  "rawBlock valid ecOff df bs i =
     \<lparr>id_blk = i, isValid = validWindow valid df bs i,
      eraseCount = le24 (window df bs i) (nat ecOff), rwp = 0, buf = window df bs i\<rparr>"

definition storedRwp :: "int \<Rightarrow> int \<Rightarrow> Buffer \<Rightarrow> nat \<Rightarrow> nat \<Rightarrow> int" where
  "storedRwp rwpOff scale df bs i = le24 (window df bs i) (nat rwpOff) * scale"

text \<open>
  No valid block after block \<open>i\<close> carries a pointer \<open>ptr\<close> into the block that the pointer
  of block \<open>i\<close> addresses.
\<close>

definition lastToAddress ::
  "(nat \<rightharpoonup> DataFlashBlock) \<Rightarrow> nat \<Rightarrow> (DataFlashBlock \<Rightarrow> int) \<Rightarrow> nat \<Rightarrow> bool" where
  "lastToAddress bd bs ptr i =
     (\<forall>j b c. i < j \<and> bd i = Some b \<and> bd j = Some c \<and> isValid c
        \<longrightarrow> nat (ptr c div int bs) \<noteq> nat (ptr b div int bs))"

text \<open>
  Family A images of one block: a valid header with the erase-counter field \<open>ec\<close> at
  0x28 and the write-pointer field \<open>rw\<close> at 0x30, the reference slots from 0x40 and the
  data area from 0x800.
\<close>

definition imageA :: "Buffer \<Rightarrow> Buffer \<Rightarrow> Buffer \<Rightarrow> Buffer \<Rightarrow> Buffer" where
  "imageA ec rw slots dat =
     replicate 16 0 @ [0x55, 0x55, 0x55, 0x55] @ replicate 4 0 @ [0x55, 0x55, 0x55, 0x55]
     @ replicate 4 0 @ [0x55, 0x55, 0x55, 0x55] @ replicate 4 0 @ take 4 (ec @ replicate 4 0)
     @ replicate 4 0 @ take 4 (rw @ replicate 4 0) @ replicate 12 0
     @ take 0x7c0 (slots @ replicate 0x7c0 0) @ take 0x800 (dat @ replicate 0x800 0)"

text \<open>An image with no record, whose header fields have a non-zero fourth byte.\<close>

definition image_c7 :: Buffer where
  "image_c7 = imageA [2, 0, 0, 1] [0x40, 0, 0, 1] [0xff, 0xff, 0xff, 0xff] []"

text \<open>
  Family B images of one block: a valid header with erase counter 1 and write pointer
  0x48, a descriptor at 0x44 for id 0x10 with its data at 0x7f8, and an older descriptor
  at 0x34 for the same id with its data at 0x7f0, whose guard bytes are \<open>g\<close>.
\<close>

definition imageB :: "byte \<Rightarrow> Buffer" where
  "imageB g =
     replicate 4 0 @ replicate 12 0x55 @ [1, 0, 0, 0xFE] @ [0x48, 0, 0, 0xB7]
     @ replicate 16 0
     @ replicate 12 g @ [0x10, 0, 0xF0, 0x07]
     @ replicate 12 0x55 @ [0x10, 0, 0xF8, 0x07]
     @ replicate (0x7ec - 0x48) 0
     @ [0x44, 0x44, 0x44, 0x44] @ [0x33, 0x33, 0x33, 0x33]
     @ [0x22, 0x22, 0x22, 0x22] @ [0x11, 0x11, 0x11, 0x11]
     @ replicate 4 0"

text \<open>The instance that the constructor of the base class builds over an image.\<close>

definition instance_of :: "Buffer \<Rightarrow> nat \<Rightarrow> EepData NecEmulator" where
  "instance_of df bs =
     \<lparr>dfBuffer = df, eepData = Map.empty, blockData = Map.empty,
      nBlocks = length df div bs, blockSize = bs, activeBlocks = []\<rparr>"

text \<open>A code image: the table header at 0, then a table of one entry of id 0x10 and length \<open>len\<close>.\<close>

definition codeImage :: "byte \<Rightarrow> byte \<Rightarrow> Buffer" where
  "codeImage lenLo lenHi =
     [0, 0, 0, 0] @ [0x10, 0, 0, 0] @ [0, 0, 0, 0] @ [1, 0, 0, 0] @ [0x10, 0, lenLo, lenHi]"

text \<open>The little-endian bytes of a 32-bit value, and of a sequence of them.\<close>

definition le_bytes :: "int \<Rightarrow> Buffer" where
  "le_bytes w = [word_of_int w, word_of_int (w div 2 ^ 8), word_of_int (w div 2 ^ 16),
                 word_of_int (w div 2 ^ 24)]"

definition le_serialize :: "int list \<Rightarrow> Buffer" where
  "le_serialize ws = concat (map le_bytes ws)"

text \<open>
  The \<open>k\<close> words of family A's backward walk from word index \<open>wIdx\<close> through the image,
  and the \<open>n\<close> words read backward from the last 8-byte cell of a successor block.
\<close>

definition inBlockWords :: "Buffer \<Rightarrow> int \<Rightarrow> nat \<Rightarrow> int list" where
  "inBlockWords df wIdx k = map (\<lambda>j. le32 df (nat ((wIdx - int j) * 8))) [0..<k]"

definition overlapWords :: "Buffer \<Rightarrow> nat \<Rightarrow> int list" where
  "overlapWords sb n = map (\<lambda>j. le32 sb (length sb - 8 - 8 * j)) [0..<n]"

text \<open>
  A one-block image with two reference slots for id 5: the slot at 0x40 with a matching
  checksum, the slot at 0x50 with checksum word 0.
\<close>

definition image_c3 :: Buffer where
  "image_c3 = imageA [1, 0, 0, 0] [0, 0, 0, 0]
     ([5, 0, 0, 1] @ replicate 4 0 @ [0xF6, 0xFF, 0xFF, 0xFF] @ replicate 4 0
      @ [5, 0, 1, 1] @ replicate 4 0 @ [0, 0, 0, 0] @ replicate 4 0
      @ [0xFF, 0xFF, 0xFF, 0xFF])
     ([4, 0, 0, 0] @ replicate 4 0 @ [4, 0, 0, 0])"

text \<open>
  A one-block image whose write pointer is 0x800, with two reference slots for id 5: the
  slot at 0x40 decodes, the record of the slot at 0x50 starts at 0x808, is two words
  long and so reaches the write pointer.
\<close>

definition image_c4 :: Buffer where
  "image_c4 = imageA [1, 0, 0, 0] [0, 4, 0, 0]
     ([5, 0, 2, 1] @ replicate 4 0 @ [0xF6, 0xFF, 0xFF, 0xFF] @ replicate 4 0
      @ [5, 0, 1, 1] @ replicate 4 0 @ [0xF2, 0xFF, 0xFF, 0xFF] @ replicate 4 0
      @ [0xFF, 0xFF, 0xFF, 0xFF])
     (replicate 8 0 @ [8, 0, 0, 0] @ replicate 4 0 @ [4, 0, 0, 0])"

text \<open>The only block of a one-block family A image, and the instance after the catalog is built.\<close>

definition block_of :: "Buffer \<Rightarrow> DataFlashBlock" where
  "block_of img = \<lparr>id_blk = 0, isValid = True, eraseCount = le24 img 0x28,
                    rwp = le24 img 0x30 * 2, buf = img\<rparr>"

definition scanned_of :: "Buffer \<Rightarrow> EepData NecEmulator" where
  "scanned_of img = (instance_of img BLOCK_SIZE_A)\<lparr>blockData := [0 \<mapsto> block_of img], activeBlocks := [0]\<rparr>"

text \<open>The record that the slot at 0x40 of \<open>image_c3\<close> decodes to.\<close>

definition record_c3 :: EepData where
  "record_c3 = \<lparr>id_eep = 5, widx = 0x100, widx_abs = 0x100, length_eep = 1, data = [4],
                 dataBuf = [4, 0, 0, 0], addr = 0x40\<rparr>"

text \<open>The record that the slot at 0x40 of \<open>image_c4\<close> decodes to.\<close>

definition record_c4 :: EepData where
  "record_c4 = \<lparr>id_eep = 5, widx = 0x102, widx_abs = 0x102, length_eep = 1, data = [4],
                 dataBuf = [4, 0, 0, 0], addr = 0x40\<rparr>"

text \<open>
  A two-block image.  Block 0 has one reference slot, for id 5, whose record starts at
  0x808 and is two words long; block 1 records 0x800 as the write pointer of block 0
  and ends with the word 7 in its last 8-byte cell.
\<close>

definition image_first :: Buffer where
  "image_first = imageA [1, 0, 0, 0] [0, 0, 0, 0]
     ([5, 0, 1, 1] @ replicate 4 0 @ [0xEB, 0xFF, 0xFF, 0xFF] @ replicate 4 0
      @ [0xFF, 0xFF, 0xFF, 0xFF])
     (replicate 8 0 @ [8, 0, 0, 0])"

text \<open>The second block of the two-block image.\<close>

definition image_second :: Buffer where
  "image_second = imageA [2, 0, 0, 0] [0, 4, 0, 0] [0xFF, 0xFF, 0xFF, 0xFF]
     (replicate 0x7f8 0 @ [7, 0, 0, 0])"

text \<open>The two blocks, one after the other.\<close>

definition image_two :: Buffer where
  "image_two = image_first @ image_second"

text \<open>The catalog of the two-block image and the instance after the catalog is built.\<close>

definition catalog_two :: "nat \<rightharpoonup> DataFlashBlock" where
  "catalog_two =
     [0 \<mapsto> \<lparr>id_blk = 0, isValid = True, eraseCount = 1, rwp = 0x800, buf = image_first\<rparr>,
      1 \<mapsto> \<lparr>id_blk = 1, isValid = True, eraseCount = 2, rwp = 0, buf = image_second\<rparr>]"

definition scanned_two :: "EepData NecEmulator" where
  "scanned_two = (instance_of image_two BLOCK_SIZE_A)\<lparr>blockData := catalog_two, activeBlocks := [0, 1]\<rparr>"

text \<open>The record that the slot at 0x40 of \<open>image_two\<close> decodes to.\<close>

definition record_two :: EepData where
  "record_two = \<lparr>id_eep = 5, widx = 0x101, widx_abs = 0x101, length_eep = 2, data = [8, 7],
                 dataBuf = [8, 0, 0, 0, 7, 0, 0, 0], addr = 0x40\<rparr>"

text \<open>Block \<open>i\<close> of the catalog of the two-block image.\<close>

definition block_two :: "nat \<Rightarrow> DataFlashBlock" where
  "block_two i = (if i = 0
     then \<lparr>id_blk = 0, isValid = True, eraseCount = 1, rwp = 0x800, buf = image_first\<rparr>
     else \<lparr>id_blk = 1, isValid = True, eraseCount = 2, rwp = 0, buf = image_second\<rparr>)"

text \<open>The table that \<open>getDataTable\<close> reads from \<open>codeImage 8 0\<close>.\<close>

definition table_B :: RhTable where
  "table_B = \<lparr>blockSize_tbl = 0, prepBlocks_min = 0, pointer_rom = 0x10, pointer_ram = 0,
              entries = 1, eraseSuspend = 0\<rparr>"

text \<open>The record that the table of \<open>codeImage 8 0\<close> prepares for id 0x10.\<close>

definition stub_B :: EepData where
  "stub_B = \<lparr>id_eep = 0x10, widx = 0, widx_abs = 0, length_eep = 2, data = [],
             dataBuf = replicate 32 0, addr = 0\<rparr>"

text \<open>
  The family B instance over \<open>imageB g\<close> and \<open>codeImage 8 0\<close> after the table is loaded,
  its only block, and the instance after the scan with the object \<open>e\<close> in the store.
\<close>

definition loaded_B :: "byte \<Rightarrow> Emu_RH850" where
  "loaded_B g = \<lparr>dfBuffer = imageB g, eepData = [0x10 \<mapsto> 0], blockData = Map.empty,
                 nBlocks = 1, blockSize = BLOCK_SIZE_B, activeBlocks = [],
                 cfBuf = codeImage 8 0, tableHeaderAddr = 0, dataTable = table_B,
                 heap = [stub_B]\<rparr>"

definition block_B :: "byte \<Rightarrow> DataFlashBlock" where
  "block_B g = \<lparr>id_blk = 0, isValid = True, eraseCount = 1, rwp = 0x48, buf = imageB g\<rparr>"

definition scanned_B :: "byte \<Rightarrow> EepData \<Rightarrow> Emu_RH850" where
  "scanned_B g e = (loaded_B g)\<lparr>blockData := [0 \<mapsto> block_B g], activeBlocks := [0], heap := [e]\<rparr>"

text \<open>The object of id 0x10 after the descriptor at 0x44 alone, and after both descriptors.\<close>

definition newer_B :: EepData where
  "newer_B = \<lparr>id_eep = 0x10, widx = 0x7f8, widx_abs = 0x7f8, length_eep = 2,
              data = [0x11111111, 0x22222222],
              dataBuf = replicate 4 0x11 @ replicate 4 0x22 @ replicate 24 0, addr = 0x44\<rparr>"

definition both_B :: EepData where
  "both_B = \<lparr>id_eep = 0x10, widx = 0x7f0, widx_abs = 0x7f0, length_eep = 2,
             data = [0x11111111, 0x22222222, 0x33333333, 0x44444444],
             dataBuf = replicate 4 0x11 @ replicate 4 0x22 @ replicate 4 0x33 @ replicate 4 0x44
                       @ replicate 16 0,
             addr = 0x34\<rparr>"

section \<open>Properties of the primitive codec\<close>

lemma and_mask_int: "(a::int) AND (2 ^ n - 1) = a mod 2 ^ n"
  by (metis mask_eq_exp_minus_1 take_bit_eq_mask take_bit_eq_mod)

lemma ToInt32_mod: "n \<le> 32 \<Longrightarrow> ToInt32 x mod 2 ^ n = x mod 2 ^ n"
proof -
  assume n: "n \<le> 32"
  have d: "(2::int) ^ n dvd 2 ^ 32" using n by (rule le_imp_power_dvd)
  have "ToInt32 x mod 2 ^ n = (x mod 2 ^ 32) mod 2 ^ n"
  proof (cases "x mod 2 ^ 32 \<ge> (2::int) ^ 31")
    case True
    then have "ToInt32 x = x mod 2 ^ 32 - 2 ^ 32" by (simp add: ToInt32_def)
    then show ?thesis using d by (metis mod_diff_right_eq dvd_imp_mod_0 diff_zero)
  next
    case False
    then show ?thesis by (simp add: ToInt32_def)
  qed
  then show ?thesis using d by (simp add: mod_mod_cancel)
qed

lemma ToInt32_small: "0 \<le> x \<Longrightarrow> x < 2 ^ 31 \<Longrightarrow> ToInt32 x = x"
  by (simp add: ToInt32_def)

lemma ToUint32_small: "0 \<le> x \<Longrightarrow> x < 2 ^ 32 \<Longrightarrow> ToUint32 x = x"
  by (simp add: ToUint32_def)

lemma ToUint32_ToInt32: "ToUint32 (ToInt32 x) = x mod 2 ^ 32"
  unfolding ToUint32_def by (rule ToInt32_mod) simp

lemma js_and_ff: "js_and x 0xff = x mod 2 ^ 8"
proof -
  have "ToInt32 255 = 255" by (simp add: ToInt32_def)
  then have "js_and x 0xff = ToInt32 x AND (2 ^ 8 - 1)" by (simp add: js_and_def)
  also have "\<dots> = ToInt32 x mod 2 ^ 8" by (rule and_mask_int)
  also have "\<dots> = x mod 2 ^ 8" by (rule ToInt32_mod) simp
  finally show ?thesis .
qed

lemma js_and_ffff: "js_and x 0xffff = x mod 2 ^ 16"
proof -
  have "ToInt32 65535 = 65535" by (simp add: ToInt32_def)
  then have "js_and x 0xffff = ToInt32 x AND (2 ^ 16 - 1)" by (simp add: js_and_def)
  also have "\<dots> = ToInt32 x mod 2 ^ 16" by (rule and_mask_int)
  also have "\<dots> = x mod 2 ^ 16" by (rule ToInt32_mod) simp
  finally show ?thesis .
qed

lemma js_and_ffffff: "js_and x 0xffffff = x mod 2 ^ 24"
proof -
  have "ToInt32 16777215 = 16777215" by (simp add: ToInt32_def)
  then have "js_and x 0xffffff = ToInt32 x AND (2 ^ 24 - 1)" by (simp add: js_and_def)
  also have "\<dots> = ToInt32 x mod 2 ^ 24" by (rule and_mask_int)
  also have "\<dots> = x mod 2 ^ 24" by (rule ToInt32_mod) simp
  finally show ?thesis .
qed

lemma uint_byte_bounds: "0 \<le> uint (b::byte)" "uint (b::byte) < 256"
  using uint_lt2p [of b] by simp_all

lemma shl_byte_24: "ToUint32 (js_shl (uint (b::byte)) 24) = 2 ^ 24 * uint b"
proof -
  have b: "0 \<le> uint b" "uint b < 256" by (rule uint_byte_bounds)+
  then have "ToInt32 (uint b) = uint b" by (simp add: ToInt32_small)
  then have "ToUint32 (js_shl (uint b) 24) = (uint b * 2 ^ 24) mod 2 ^ 32"
    by (simp add: js_shl_def ToUint32_ToInt32)
  also have "\<dots> = uint b * 2 ^ 24" using b by simp
  finally show ?thesis by simp
qed

lemma shl_byte_16: "ToUint32 (js_shl (uint (b::byte)) 16) = 2 ^ 16 * uint b"
proof -
  have b: "0 \<le> uint b" "uint b < 256" by (rule uint_byte_bounds)+
  then have "ToInt32 (uint b) = uint b" by (simp add: ToInt32_small)
  then have "ToUint32 (js_shl (uint b) 16) = (uint b * 2 ^ 16) mod 2 ^ 32"
    by (simp add: js_shl_def ToUint32_ToInt32)
  also have "\<dots> = uint b * 2 ^ 16" using b by simp
  finally show ?thesis by simp
qed

lemma shl_byte_8: "ToUint32 (js_shl (uint (b::byte)) 8) = 2 ^ 8 * uint b"
proof -
  have b: "0 \<le> uint b" "uint b < 256" by (rule uint_byte_bounds)+
  then have "ToInt32 (uint b) = uint b" by (simp add: ToInt32_small)
  then have "ToUint32 (js_shl (uint b) 8) = (uint b * 2 ^ 8) mod 2 ^ 32"
    by (simp add: js_shl_def ToUint32_ToInt32)
  also have "\<dots> = uint b * 2 ^ 8" using b by simp
  finally show ?thesis by simp
qed

lemma shl_byte_0: "ToUint32 (uint (b::byte)) = uint b"
  using uint_byte_bounds [of b] by (simp add: ToUint32_small)

lemma subarray_in_range:
  "0 \<le> a \<Longrightarrow> a + 4 \<le> int (length bf) \<Longrightarrow> subarray bf a (a + 4) = take 4 (drop (nat a) bf)"
  by (simp add: subarray_def Let_def min_def)

lemma buf_num_window:
  "0 \<le> a \<Longrightarrow> a + 4 \<le> int (length bf) \<Longrightarrow> k < 4 \<Longrightarrow>
   buf_num (take 4 (drop (nat a) bf)) (int k) = uint (bf ! (nat a + k))"
proof -
  assume a: "0 \<le> a" "a + 4 \<le> int (length bf)" "k < 4"
  then have "nat a + 4 \<le> length bf" by linarith
  then show ?thesis using a(3) by (simp add: buf_num_def buf_at_def)
qed

lemma readUint32_le32:
  assumes "0 \<le> a" "a + 4 \<le> int (length bf)"
  shows "readUint32 bf a True = Inr (le32 bf (nat a))"
proof -
  have l: "\<not> length bf < 4" using assms by simp
  have w: "subarray bf a (a + 4) = take 4 (drop (nat a) bf)"
    using assms by (rule subarray_in_range)
  have n: "buf_num (take 4 (drop (nat a) bf)) 0 = uint (bf ! (nat a))"
       "buf_num (take 4 (drop (nat a) bf)) 1 = uint (bf ! (nat a + 1))"
       "buf_num (take 4 (drop (nat a) bf)) 2 = uint (bf ! (nat a + 2))"
       "buf_num (take 4 (drop (nat a) bf)) 3 = uint (bf ! (nat a + 3))"
    using buf_num_window [OF assms, of 0] buf_num_window [OF assms, of 1]
      buf_num_window [OF assms, of 2] buf_num_window [OF assms, of 3] by simp_all
  show ?thesis
    using l assms(2)
    by (simp add: readUint32_def Let_def w n shl_byte_24 shl_byte_16 shl_byte_8 shl_byte_0 le32_def)
qed

lemma uint_ToUint8: "0 \<le> x \<Longrightarrow> x < 256 \<Longrightarrow> uint (ToUint8 x) = x"
  by (simp add: ToUint8_def uint_word_of_int_eq take_bit_eq_mod)

lemma readUint32_be4:
  "readUint32 [b3, b2, b1, b0] 0 False
     = Inr (uint b0 + 2 ^ 8 * uint b1 + 2 ^ 16 * uint b2 + 2 ^ 24 * uint b3)"
  by (simp add: readUint32_def subarray_def buf_num_def buf_at_def
      shl_byte_24 shl_byte_16 shl_byte_8 shl_byte_0)

lemma readUint32_le4:
  "readUint32 [b0, b1, b2, b3] 0 True
     = Inr (uint b0 + 2 ^ 8 * uint b1 + 2 ^ 16 * uint b2 + 2 ^ 24 * uint b3)"
  by (simp add: readUint32_le32 le32_def)

lemma int32ToWord_bytes:
  assumes "0 \<le> n" "n \<le> 0xffffffff"
  shows "int32ToWord n e =
    Inr (if e then [ToUint8 (n mod 2 ^ 8), ToUint8 (n mod 2 ^ 16 div 2 ^ 8),
                    ToUint8 (n mod 2 ^ 24 div 2 ^ 16), ToUint8 (n div 2 ^ 24)]
         else [ToUint8 (n div 2 ^ 24), ToUint8 (n mod 2 ^ 24 div 2 ^ 16),
               ToUint8 (n mod 2 ^ 16 div 2 ^ 8), ToUint8 (n mod 2 ^ 8)])"
proof -
  have "ToUint32 n = n" using assms by (simp add: ToUint32_small)
  moreover have "ToUint32 (n mod 2 ^ 16) = n mod 2 ^ 16" by (simp add: ToUint32_small)
  moreover have "ToUint32 (n mod 2 ^ 24) = n mod 2 ^ 24" by (simp add: ToUint32_small)
  ultimately show ?thesis
    using assms unfolding int32ToWord_def js_and_ff js_and_ffff js_and_ffffff js_ushr_def Let_def
    by simp
qed

text \<open>
  C10.  The codec round trip: for every integer \<open>n\<close> with \<open>0 \<le> n \<le> 0xFFFFFFFF\<close> and
  either endianness flag \<open>e\<close>, \<open>int32ToWord\<close> returns a word and \<open>readUint32\<close> of that
  word at address 0 with the same flag returns \<open>n\<close>.
\<close>

theorem int32ToWord_readUint32_roundtrip:
  assumes "0 \<le> n" "n \<le> 0xffffffff"
  shows "\<exists>w. int32ToWord n e = Inr w \<and> readUint32 w 0 e = Inr n"
proof -
  have r1: "0 \<le> n mod 2 ^ 16 div 2 ^ 8" "n mod 2 ^ 16 div 2 ^ 8 < 256"
    by simp_all
  have r2: "0 \<le> n mod 2 ^ 24 div 2 ^ 16" "n mod 2 ^ 24 div 2 ^ 16 < 256"
    by simp_all
  have r3: "0 \<le> n div 2 ^ 24" "n div 2 ^ 24 < 256"
    using assms by simp_all
  have b0: "uint (ToUint8 (n mod 2 ^ 8)) = n mod 2 ^ 8"
    by (rule uint_ToUint8) simp_all
  have b1: "uint (ToUint8 (n mod 2 ^ 16 div 2 ^ 8)) = n mod 2 ^ 16 div 2 ^ 8"
    using r1 by (rule uint_ToUint8)
  have b2: "uint (ToUint8 (n mod 2 ^ 24 div 2 ^ 16)) = n mod 2 ^ 24 div 2 ^ 16"
    using r2 by (rule uint_ToUint8)
  have b3: "uint (ToUint8 (n div 2 ^ 24)) = n div 2 ^ 24"
    using r3 by (rule uint_ToUint8)
  have m1: "n mod 2 ^ 24 mod 2 ^ 16 = n mod 2 ^ 16"
    by (rule mod_mod_cancel) (rule le_imp_power_dvd, simp)
  have m2: "n mod 2 ^ 16 mod 2 ^ 8 = n mod 2 ^ 8"
    by (rule mod_mod_cancel) (rule le_imp_power_dvd, simp)
  have d1: "2 ^ 24 * (n div 2 ^ 24) + n mod 2 ^ 24 = n"
    by (rule mult_div_mod_eq)
  have d2: "2 ^ 16 * (n mod 2 ^ 24 div 2 ^ 16) + n mod 2 ^ 16 = n mod 2 ^ 24"
    using mult_div_mod_eq [of "2 ^ 16" "n mod 2 ^ 24"] unfolding m1 .
  have d3: "2 ^ 8 * (n mod 2 ^ 16 div 2 ^ 8) + n mod 2 ^ 8 = n mod 2 ^ 16"
    using mult_div_mod_eq [of "2 ^ 8" "n mod 2 ^ 16"] unfolding m2 .
  have s: "n mod 2 ^ 8 + 2 ^ 8 * (n mod 2 ^ 16 div 2 ^ 8) + 2 ^ 16 * (n mod 2 ^ 24 div 2 ^ 16)
           + 2 ^ 24 * (n div 2 ^ 24) = n"
    using d1 d2 d3 by linarith
  show ?thesis
  proof (cases e)
    case True
    have "readUint32 [ToUint8 (n mod 2 ^ 8), ToUint8 (n mod 2 ^ 16 div 2 ^ 8),
            ToUint8 (n mod 2 ^ 24 div 2 ^ 16), ToUint8 (n div 2 ^ 24)] 0 True = Inr n"
      by (simp only: readUint32_le4 b0 b1 b2 b3 s)
    then show ?thesis
      using int32ToWord_bytes [OF assms, of e] True by (simp only: if_True) blast
  next
    case False
    have "readUint32 [ToUint8 (n div 2 ^ 24), ToUint8 (n mod 2 ^ 24 div 2 ^ 16),
            ToUint8 (n mod 2 ^ 16 div 2 ^ 8), ToUint8 (n mod 2 ^ 8)] 0 False = Inr n"
      by (simp only: readUint32_be4 b0 b1 b2 b3 s)
    then show ?thesis
      using int32ToWord_bytes [OF assms, of e] False by (simp only: if_False) blast
  qed
qed

theorem int32ToWord_readUint32_roundtrip_witness:
  "(\<exists>w. int32ToWord 0x89abcdef True = Inr w \<and> readUint32 w 0 True = Inr 0x89abcdef)
   \<and> (\<exists>w. int32ToWord 0x89abcdef False = Inr w \<and> readUint32 w 0 False = Inr 0x89abcdef)"
  using int32ToWord_readUint32_roundtrip [of "0x89abcdef" True]
    int32ToWord_readUint32_roundtrip [of "0x89abcdef" False] by simp

section \<open>Block validity\<close>

lemma checkSum8bit_loop_in_range:
  "0 \<le> i \<Longrightarrow> e < int (length b) \<Longrightarrow>
   checkSum8bit_loop b i e (Some r) = Some (r + (\<Sum>k \<leftarrow> [nat i..<nat (e + 1)]. uint (b ! k)))"
proof (induction b i e "Some r" arbitrary: r rule: checkSum8bit_loop.induct)
  case (1 b i e)
  show ?case
  proof (cases "i \<le> e")
    case True
    then have at: "buf_at b i = Some (b ! nat i)" using 1(2,3) by (simp add: buf_at_def)
    have lt: "nat i < nat (e + 1)" and su: "nat (i + 1) = Suc (nat i)"
      using True 1(2) by linarith+
    have "[nat i..<nat (e + 1)] = nat i # [nat (i + 1)..<nat (e + 1)]"
      unfolding su using lt by (rule upt_conv_Cons)
    then show ?thesis
      using True 1(2,3) 1(1) [of "r + uint (b ! nat i)"] at
      by (subst checkSum8bit_loop.simps) simp
  next
    case False
    then show ?thesis using 1(2) by (subst checkSum8bit_loop.simps) simp
  qed
qed

lemma checkSum8bit_sum8:
  "hi < length b \<Longrightarrow> checkSum8bit b (int lo) (int hi) = sum8 b lo hi"
  using checkSum8bit_loop_in_range [of "int lo" "int hi" b 0]
  by (simp add: checkSum8bit_def sum8_def js_and_ff nat_add_distrib)

lemma isValidBlock_A_spec:
  assumes "length b = blockSize this" "blockSize this = BLOCK_SIZE_A"
  shows "isValidBlock_A this b =
      Inr (le32 b 0x10 = 0x55555555 \<and> le32 b 0x18 = 0x55555555 \<and> le32 b 0x20 = 0x55555555)"
proof -
  have l: "length b = 0x1000" using assms by (simp add: BLOCK_SIZE_A_def)
  have r: "readUint32 b 0x10 True = Inr (le32 b 0x10)" "readUint32 b 0x18 True = Inr (le32 b 0x18)"
    "readUint32 b 0x20 True = Inr (le32 b 0x20)"
    using l readUint32_le32 [of "0x10" b] readUint32_le32 [of "0x18" b] readUint32_le32 [of "0x20" b]
    by simp_all
  show ?thesis using assms(1) by (auto simp: isValidBlock_A_def r ACTIVE_FLAG_def)
qed

lemma isValidBlock_B_spec:
  assumes "length b = BLOCK_SIZE_B"
  shows "isValidBlock_B b =
      Inr (le32 b 0x04 = 0x55555555 \<and> le32 b 0x08 = 0x55555555 \<and> le32 b 0x0c = 0x55555555
           \<and> sum8 b 0x10 0x13 = 0xff \<and> sum8 b 0x14 0x17 = 0xff)"
proof -
  have l: "length b = 0x800" using assms by (simp add: BLOCK_SIZE_B_def)
  have r: "readUint32 b 0x4 True = Inr (le32 b 0x4)" "readUint32 b 0x8 True = Inr (le32 b 0x8)"
    "readUint32 b 0xc True = Inr (le32 b 0xc)"
    using l readUint32_le32 [of "0x4" b] readUint32_le32 [of "0x8" b] readUint32_le32 [of "0xc" b]
    by simp_all
  have c: "checkSum8bit b 0x10 0x13 = sum8 b 0x10 0x13" "checkSum8bit b 0x14 0x17 = sum8 b 0x14 0x17"
    using l checkSum8bit_sum8 [of "0x13" b "0x10"] checkSum8bit_sum8 [of "0x17" b "0x14"] by simp_all
  show ?thesis by (auto simp: isValidBlock_B_def r c ACTIVE_FLAG_def)
qed

text \<open>
  C6.  A block window (a buffer of the family's block size) is classified valid if and
  only if its guard words equal the active flag 0x55555555: for family A the
  little-endian words at offsets 0x10, 0x18 and 0x20; for family B the words at 0x04,
  0x08 and 0x0C, and in addition the 8-bit additive checksums of the bytes 0x10-0x13
  and of the bytes 0x14-0x17 both equal 0xFF.
\<close>

theorem isValidBlock_iff_guards:
  "(length a = blockSize this \<and> blockSize this = BLOCK_SIZE_A \<longrightarrow>
      isValidBlock_A this a =
        Inr (le32 a 0x10 = 0x55555555 \<and> le32 a 0x18 = 0x55555555 \<and> le32 a 0x20 = 0x55555555))
   \<and> (length b = BLOCK_SIZE_B \<longrightarrow>
      isValidBlock_B b =
        Inr (le32 b 0x04 = 0x55555555 \<and> le32 b 0x08 = 0x55555555 \<and> le32 b 0x0c = 0x55555555
             \<and> sum8 b 0x10 0x13 = 0xff \<and> sum8 b 0x14 0x17 = 0xff))"
  using isValidBlock_A_spec [of a this] isValidBlock_B_spec [of b] by blast

theorem isValidBlock_iff_guards_witness:
  "isValidBlock_A window_example (replicate 0x1000 0x55) = Inr True
   \<and> isValidBlock_B (replicate 0x800 0x55) = Inr False"
  using isValidBlock_iff_guards [of "replicate 0x1000 0x55" window_example "replicate 0x800 0x55"]
  by (simp add: window_example_def BLOCK_SIZE_A_def BLOCK_SIZE_B_def le32_def sum8_def)

section \<open>The erase order\<close>

lemma eraseGroup_snoc:
  "eraseGroup bd (P @ [i]) e =
     eraseGroup bd P e @ (if validIdx bd i \<and> ecOf bd i = e then [i] else [])"
  by (simp add: eraseGroup_def)

lemma groupBlocks_spec:
  assumes "\<forall>i\<in>set is. bd i \<noteq> None"
    and "\<forall>e. blocks e = (if eraseGroup bd P e = [] then None else Some (eraseGroup bd P e))"
    and "set ecs = dom blocks" and "distinct ecs"
  shows "\<exists>blocks' ecs'. groupBlocks bd is blocks ecs = Inr (blocks', ecs')
      \<and> (\<forall>e. blocks' e = (if eraseGroup bd (P @ is) e = [] then None
                            else Some (eraseGroup bd (P @ is) e)))
      \<and> set ecs' = dom blocks' \<and> distinct ecs'"
  using assms
proof (induction "is" arbitrary: P blocks ecs)
  case Nil
  then show ?case by simp
next
  case (Cons i "is")
  from Cons.prems(1) obtain b where b: "bd i = Some b" by auto
  have rest: "\<forall>i\<in>set is. bd i \<noteq> None" using Cons.prems(1) by simp
  show ?case
  proof (cases "isValid b")
    case False
    then have nv: "\<not> validIdx bd i" by (simp add: validIdx_def b)
    have inv: "\<forall>e. blocks e = (if eraseGroup bd (P @ [i]) e = [] then None
                                 else Some (eraseGroup bd (P @ [i]) e))"
      using Cons.prems(2) nv by (simp add: eraseGroup_snoc)
    from Cons.IH [OF rest inv Cons.prems(3) Cons.prems(4)] False b
    show ?thesis by (simp cong: if_cong)
  next
    case True
    then have v: "validIdx bd i" and ec: "ecOf bd i = eraseCount b"
      by (simp_all add: validIdx_def ecOf_def b)
    show ?thesis
    proof (cases "blocks (eraseCount b)")
      case None
      then have emp: "eraseGroup bd P (eraseCount b) = []"
        using Cons.prems(2) by (metis option.distinct(1))
      let ?blocks = "blocks(eraseCount b \<mapsto> [] @ [i])"
      let ?ecs = "ecs @ [eraseCount b]"
      have inv: "\<forall>e. ?blocks e = (if eraseGroup bd (P @ [i]) e = [] then None
                                 else Some (eraseGroup bd (P @ [i]) e))"
        using Cons.prems(2) v ec emp by (auto simp: eraseGroup_snoc)
      have "eraseCount b \<notin> set ecs" using None Cons.prems(3) by auto
      then have d: "distinct ?ecs" using Cons.prems(4) by simp
      have s: "set ?ecs = dom ?blocks" using Cons.prems(3) by auto
      from Cons.IH [OF rest inv s d] True b None
      show ?thesis by (simp cong: if_cong add: fun_upd_def)
    next
      case (Some l)
      then have l: "l = eraseGroup bd P (eraseCount b)"
        using Cons.prems(2) by (metis option.distinct(1) option.inject)
      let ?blocks = "blocks(eraseCount b \<mapsto> l @ [i])"
      have inv: "\<forall>e. ?blocks e = (if eraseGroup bd (P @ [i]) e = [] then None
                                 else Some (eraseGroup bd (P @ [i]) e))"
        using Cons.prems(2) v ec l by (auto simp: eraseGroup_snoc)
      have s: "set ecs = dom ?blocks" using Cons.prems(3) Some by auto
      from Cons.IH [OF rest inv s Cons.prems(4)] True b Some
      show ?thesis by (simp cong: if_cong add: fun_upd_def)
    qed
  qed
qed

lemma concatGroups_spec:
  "\<forall>e\<in>set es. \<exists>l. blocks e = Some l \<Longrightarrow>
   concatGroups blocks es acc = Inr (acc @ concat (map (\<lambda>e. sort (the (blocks e))) es))"
  by (induction es arbitrary: acc) auto

lemma sorted_wrt_irrefl_distinct:
  "sorted_wrt R xs \<Longrightarrow> \<forall>x. \<not> R x x \<Longrightarrow> distinct xs"
  by (induction xs) auto

lemma eraseGroup_sorted: "sorted_wrt (<) (eraseGroup bd [0..<n] e)"
  unfolding eraseGroup_def by (rule sorted_wrt_filter) simp

lemma eraseGroup_sort: "sort (eraseGroup bd [0..<n] e) = eraseGroup bd [0..<n] e"
  by (rule sorted_sort_id) (rule strict_sorted_imp_sorted, rule eraseGroup_sorted)

lemma sorted_wrt_members:
  "sorted_wrt R xs \<Longrightarrow> \<forall>x\<in>set xs. Q x \<Longrightarrow> sorted_wrt (\<lambda>x y. R x y \<and> Q x \<and> Q y) xs"
  by (induction xs) auto

lemma eraseGroup_precedes: "sorted_wrt (erasePrecedes bd) (eraseGroup bd [0..<n] e)"
proof -
  have "\<forall>i\<in>set (eraseGroup bd [0..<n] e). ecOf bd i = e" by (simp add: eraseGroup_def)
  with eraseGroup_sorted [of bd n e]
  have "sorted_wrt (\<lambda>i j. i < j \<and> ecOf bd i = e \<and> ecOf bd j = e) (eraseGroup bd [0..<n] e)"
    by (rule sorted_wrt_members)
  then show ?thesis
    by (rule sorted_wrt_mono_rel [rotated]) (simp add: erasePrecedes_def)
qed

lemma concat_groups_precedes:
  "sorted_wrt (<) es \<Longrightarrow>
   sorted_wrt (erasePrecedes bd) (concat (map (eraseGroup bd [0..<n]) es))"
proof (induction es)
  case Nil
  then show ?case by simp
next
  case (Cons e es)
  have "\<forall>i\<in>set (eraseGroup bd [0..<n] e). \<forall>j\<in>set (concat (map (eraseGroup bd [0..<n]) es)).
          erasePrecedes bd i j"
    using Cons.prems by (auto simp: eraseGroup_def erasePrecedes_def)
  then show ?case
    using Cons eraseGroup_precedes [of bd n e] by (simp add: sorted_wrt_append)
qed

text \<open>
  C2.  For every complete block catalog the erase-order resolver returns exactly the
  valid block indices, each once, ordered by erase counter ascending and, among equal
  counters, by block index ascending.
\<close>

theorem getActiveBlocksOrderedList_order:
  assumes "\<forall>i<nBlocks this. blockData this i \<noteq> None"
  shows "\<exists>r. getActiveBlocksOrderedList this = Inr r
    \<and> set r = {i. i < nBlocks this \<and> validIdx (blockData this) i}
    \<and> distinct r
    \<and> sorted_wrt (erasePrecedes (blockData this)) r"
proof -
  let ?bd = "blockData this" and ?n = "nBlocks this"
  have a: "\<forall>i\<in>set [0..<?n]. ?bd i \<noteq> None" using assms by simp
  have b: "\<forall>e. Map.empty e = (if eraseGroup ?bd [] e = [] then None else Some (eraseGroup ?bd [] e))"
    by (simp add: eraseGroup_def)
  from groupBlocks_spec [OF a b, of "[]"]
  obtain blocks ecs where g: "groupBlocks ?bd [0..<?n] Map.empty [] = Inr (blocks, ecs)"
    and bl: "\<forall>e. blocks e = (if eraseGroup ?bd [0..<?n] e = [] then None
                               else Some (eraseGroup ?bd [0..<?n] e))"
    and se: "set ecs = dom blocks" and di: "distinct ecs"
    by auto
  have dom: "\<forall>e\<in>set (sort ecs). \<exists>l. blocks e = Some l" using se by auto
  have the: "\<forall>e\<in>set (sort ecs). sort (the (blocks e)) = eraseGroup ?bd [0..<?n] e"
    using se bl by (auto simp: eraseGroup_sort dom_def split: if_splits)
  let ?r = "concat (map (eraseGroup ?bd [0..<?n]) (sort ecs))"
  have "concat (map (\<lambda>e. sort (the (blocks e))) (sort ecs)) = ?r"
    using the by (intro arg_cong [where f = concat] map_cong) auto
  then have r: "getActiveBlocksOrderedList this = Inr ?r"
    using g concatGroups_spec [OF dom, of "[]"] by (simp add: getActiveBlocksOrderedList_def)
  have str: "sorted_wrt (<) (sort ecs)"
    using di by (simp add: strict_sorted_iff)
  have srt: "sorted_wrt (erasePrecedes ?bd) ?r" using str by (rule concat_groups_precedes)
  have "\<forall>x. \<not> erasePrecedes ?bd x x" by (simp add: erasePrecedes_def)
  with srt have dis: "distinct ?r" by (rule sorted_wrt_irrefl_distinct)
  have "set ecs = {e. eraseGroup ?bd [0..<?n] e \<noteq> []}"
    using se bl by (auto simp: dom_def split: if_splits)
  then have "set ?r = {i. i < ?n \<and> validIdx ?bd i}"
    by (fastforce simp: eraseGroup_def filter_empty_conv)
  with r dis srt show ?thesis by blast
qed

theorem getActiveBlocksOrderedList_order_witness:
  "getActiveBlocksOrderedList catalog_example = Inr [1, 0, 3]
   \<and> (\<exists>r. getActiveBlocksOrderedList catalog_example = Inr r
        \<and> set r = {i. i < nBlocks catalog_example \<and> validIdx (blockData catalog_example) i}
        \<and> distinct r
        \<and> sorted_wrt (erasePrecedes (blockData catalog_example)) r)"
proof -
  have h: "\<forall>i<nBlocks catalog_example. blockData catalog_example i \<noteq> None"
    by (simp add: catalog_example_def less_Suc_eq numeral_eq_Suc)
  have e: "getActiveBlocksOrderedList catalog_example = Inr [1, 0, 3]"
    by code_simp
  show ?thesis
    using e getActiveBlocksOrderedList_order [OF h] by (rule conjI)
qed

section \<open>The geometry of the image\<close>

lemma buf_alloc_geom: "buf_alloc n \<noteq> Inl InvalidBufferSize"
  by (simp add: buf_alloc_def)

lemma buf_copy_geom: "buf_copy s t a b c \<noteq> Inl InvalidBufferSize"
  by (simp add: buf_copy_def Let_def)

lemma readUint32_geom: "readUint32 b a le \<noteq> Inl InvalidBufferSize"
  by (simp add: readUint32_def Let_def)

lemma int32ToWord_geom: "int32ToWord n le \<noteq> Inl InvalidBufferSize"
  by (simp add: int32ToWord_def Let_def)

lemma writeWords_geom: "writeWords ws j d \<noteq> Inl InvalidBufferSize"
  by (induction ws j d rule: writeWords.induct)
     (auto simp: int32ToWord_geom buf_copy_geom split: sum.splits)

lemma isValidBlock_A_geom: "isValidBlock_A this b \<noteq> Inl InvalidBufferSize"
  by (auto simp: isValidBlock_A_def readUint32_geom split: sum.splits)

lemma isValidBlock_B_geom: "isValidBlock_B b \<noteq> Inl InvalidBufferSize"
  by (auto simp: isValidBlock_B_def readUint32_geom split: sum.splits)

lemma catalogBlocks_geom:
  "\<forall>b. valid b \<noteq> Inl InvalidBufferSize \<Longrightarrow>
   catalogBlocks this valid ecOff rwpOff scale is blocks rwps \<noteq> Inl InvalidBufferSize"
  by (induction "is" arbitrary: blocks rwps)
     (auto simp: Let_def buf_alloc_geom buf_copy_geom readUint32_geom split: sum.splits)

lemma assignRwps_geom: "assignRwps bs blocks rwps \<noteq> Inl InvalidBufferSize"
  by (induction rwps arbitrary: blocks) (auto simp: Let_def split: option.splits)

lemma getBlocksData_geom:
  "\<forall>b. valid b \<noteq> Inl InvalidBufferSize \<Longrightarrow>
   getBlocksData this valid ecOff rwpOff scale \<noteq> Inl InvalidBufferSize"
  by (auto simp: getBlocksData_def catalogBlocks_geom assignRwps_geom split: sum.splits)

lemma groupBlocks_geom: "groupBlocks bd is blocks ecs \<noteq> Inl InvalidBufferSize"
  by (induction "is" arbitrary: blocks ecs) (auto split: option.splits)

lemma concatGroups_geom: "concatGroups blocks es acc \<noteq> Inl InvalidBufferSize"
  by (induction es arbitrary: acc) (auto split: option.splits)

lemma getActiveBlocksOrderedList_geom: "getActiveBlocksOrderedList this \<noteq> Inl InvalidBufferSize"
  by (auto simp: getActiveBlocksOrderedList_def groupBlocks_geom concatGroups_geom split: sum.splits)

lemma storeSlot_A_geom:
  "storeSlot_A this block blockId nextBlock b i word eep \<noteq> Inl InvalidBufferSize"
  by (auto simp: storeSlot_A_def Let_def readUint32_geom buf_alloc_geom writeWords_geom
      split: sum.splits)

lemma populateBlockData_A_loop_geom:
  "populateBlockData_A_loop this block blockId nextBlock b i word eep \<noteq> Inl InvalidBufferSize"
proof (induction this block blockId nextBlock b i word eep rule: populateBlockData_A_loop.induct)
  case (1 this block blockId nextBlock b i word eep)
  show ?case
    using 1 by (subst populateBlockData_A_loop.simps)
      (auto simp: storeSlot_A_geom readUint32_geom split: sum.splits)
qed

lemma populateBlockData_A_geom: "populateBlockData_A this blockId \<noteq> Inl InvalidBufferSize"
  by (auto simp: populateBlockData_A_def Let_def readUint32_geom populateBlockData_A_loop_geom
      split: sum.splits option.splits)

lemma populateAll_A_geom: "populateAll_A this is \<noteq> Inl InvalidBufferSize"
  by (induction "is" arbitrary: this) (auto simp: populateBlockData_A_geom split: sum.splits)

lemma getDataTable_geom: "getDataTable cf hdr \<noteq> Inl InvalidBufferSize"
  by (auto simp: getDataTable_def readUint32_geom split: sum.splits)

lemma populateDataInfoWTable_loop_geom:
  "populateDataInfoWTable_loop table i eep hp \<noteq> Inl InvalidBufferSize"
proof (induction table i eep hp rule: populateDataInfoWTable_loop.induct)
  case (1 table i eep hp)
  show ?case
    using 1 by (subst populateDataInfoWTable_loop.simps)
      (auto simp: Let_def fun_upd_def readUint32_geom buf_alloc_geom split: sum.splits)
qed

lemma populateDataInfoWTable_geom: "populateDataInfoWTable this \<noteq> Inl InvalidBufferSize"
  by (auto simp: populateDataInfoWTable_def buf_alloc_geom buf_copy_geom
      populateDataInfoWTable_loop_geom split: sum.splits)

lemma readWords_B_geom: "readWords_B b wIdx nWord j dat \<noteq> Inl InvalidBufferSize"
proof (induction b wIdx nWord j dat rule: readWords_B.induct)
  case (1 b wIdx nWord j dat)
  show ?case
    using 1 by (subst readWords_B.simps) (auto simp: readUint32_geom split: sum.splits)
qed

lemma readDataEntry_B_geom: "readDataEntry_B this block refAddr \<noteq> Inl InvalidBufferSize"
  by (auto simp: readDataEntry_B_def Let_def readUint32_geom readWords_B_geom writeWords_geom
      split: sum.splits option.splits)

lemma findActiveRwp_loop_geom:
  "findActiveRwp_loop this page rwP hypo dwp \<noteq> Inl InvalidBufferSize"
proof (induction this page rwP hypo dwp rule: findActiveRwp_loop.induct)
  case (1 this page rwP hypo dwp)
  show ?case
    using 1 by (subst findActiveRwp_loop.simps)
      (auto simp: readDataEntry_B_geom split: sum.splits option.splits)
qed

lemma populateBlockData_B_loop_geom:
  "populateBlockData_B_loop this block i \<noteq> Inl InvalidBufferSize"
proof (induction this block i rule: populateBlockData_B_loop.induct)
  case (1 this block i)
  show ?case
    using 1 by (subst populateBlockData_B_loop.simps)
      (auto simp: readDataEntry_B_geom split: sum.splits option.splits)
qed

lemma populateBlockData_B_geom: "populateBlockData_B this blockId \<noteq> Inl InvalidBufferSize"
  by (auto simp: populateBlockData_B_def Let_def findActiveRwp_def findActiveRwp_loop_geom
      populateBlockData_B_loop_geom split: sum.splits option.splits)

lemma populateAll_B_geom: "populateAll_B this is \<noteq> Inl InvalidBufferSize"
  by (induction "is" arbitrary: this) (auto simp: populateBlockData_B_geom split: sum.splits)

lemma NecEmulator_new_geom:
  "((NecEmulator_new dfBuf bs :: error + 'e NecEmulator) = Inl InvalidBufferSize)
     = (length dfBuf = 0 \<or> length dfBuf mod bs \<noteq> 0)"
  by (auto simp: NecEmulator_new_def)

lemma NecEmulator_new_Inl:
  "(NecEmulator_new dfBuf bs :: error + 'e NecEmulator) = Inl e \<Longrightarrow> e = InvalidBufferSize"
  by (auto simp: NecEmulator_new_def split: if_splits)

text \<open>
  C5.  Construction fails with the geometry error if and only if the image is empty or
  its length is not a multiple of the block size: for the constructor of the base
  class with any block size, and for the constructors of both families with their own
  block sizes (no later stage raises that error).  Otherwise the base constructor
  returns an instance over the image with \<open>length / blockSize\<close> blocks.
\<close>

theorem geometry_error:
  "((NecEmulator_new dfBuf bs :: error + 'e NecEmulator) = Inl InvalidBufferSize
      \<longleftrightarrow> length dfBuf = 0 \<or> length dfBuf mod bs \<noteq> 0)
   \<and> (Emu_V850e2 dfBuf = Inl InvalidBufferSize
      \<longleftrightarrow> length dfBuf = 0 \<or> length dfBuf mod BLOCK_SIZE_A \<noteq> 0)
   \<and> (Emu_RH850_new dfBuf cfBuffer hdr = Inl InvalidBufferSize
      \<longleftrightarrow> length dfBuf = 0 \<or> length dfBuf mod BLOCK_SIZE_B \<noteq> 0)
   \<and> (case (NecEmulator_new dfBuf bs :: error + 'e NecEmulator) of
         Inl e \<Rightarrow> e = InvalidBufferSize
       | Inr this \<Rightarrow> dfBuffer this = dfBuf \<and> blockSize this = bs
           \<and> nBlocks this = length dfBuf div bs \<and> nBlocks this * bs = length dfBuf)"
proof -
  have a: "Emu_V850e2 dfBuf = Inl InvalidBufferSize
      \<longleftrightarrow> length dfBuf = 0 \<or> length dfBuf mod BLOCK_SIZE_A \<noteq> 0"
    using NecEmulator_new_geom [of dfBuf BLOCK_SIZE_A, where 'e = EepData]
    by (auto simp: Emu_V850e2_def getBlocksData_A_def getBlocksData_geom isValidBlock_A_geom
        getActiveBlocksOrderedList_geom populateAll_A_geom
        split: sum.splits dest: NecEmulator_new_Inl)
  have b: "Emu_RH850_new dfBuf cfBuffer hdr = Inl InvalidBufferSize
      \<longleftrightarrow> length dfBuf = 0 \<or> length dfBuf mod BLOCK_SIZE_B \<noteq> 0"
    using NecEmulator_new_geom [of dfBuf BLOCK_SIZE_B, where 'e = nat]
    by (auto simp: Emu_RH850_new_def Emu_RH850_setup_def Emu_RH850_scan_def
        getBlocksData_B_def getBlocksData_geom isValidBlock_B_geom getDataTable_geom
        populateDataInfoWTable_geom getActiveBlocksOrderedList_geom populateAll_B_geom
        split: sum.splits dest: NecEmulator_new_Inl)
  have c: "case (NecEmulator_new dfBuf bs :: error + 'e NecEmulator) of
         Inl e \<Rightarrow> e = InvalidBufferSize
       | Inr this \<Rightarrow> dfBuffer this = dfBuf \<and> blockSize this = bs
           \<and> nBlocks this = length dfBuf div bs \<and> nBlocks this * bs = length dfBuf"
    by (auto simp: NecEmulator_new_def)
  show ?thesis using NecEmulator_new_geom [of dfBuf bs, where 'e = 'e] a b c by blast
qed

theorem geometry_error_witness:
  "(NecEmulator_new [1, 2, 3, 4, 5] 4 :: error + unit NecEmulator) = Inl InvalidBufferSize
   \<and> Emu_V850e2 [1, 2, 3, 4, 5] = Inl InvalidBufferSize
   \<and> Emu_RH850_new [1, 2, 3, 4, 5] [] 0 = Inl InvalidBufferSize"
  using geometry_error [of "[1, 2, 3, 4, 5]" 4 "[]" 0, where 'e = unit]
  by (simp add: BLOCK_SIZE_A_def BLOCK_SIZE_B_def)

section \<open>The block catalog\<close>

lemma buf_alloc_nat: "buf_alloc (int n) = Inr (replicate n 0)"
  by (simp add: buf_alloc_def)

lemma buf_copy_window:
  assumes "(i + 1) * bs \<le> length df"
  shows "buf_copy df (replicate bs 0) 0 (int (i * bs)) (int (length df)) = Inr (window df bs i)"
proof (cases "bs = 0")
  case True
  then show ?thesis by (simp add: buf_copy_def window_def)
next
  case False
  have a: "i * bs + bs \<le> length df" using assms by simp
  then have b: "i * bs < length df" using False by simp
  have k: "int (i * bs) + int bs \<le> int (length df)" using a by linarith
  show ?thesis
    using False k b
    by (auto simp: buf_copy_def Let_def window_def min_def simp del: of_nat_mult)
qed

lemma length_window: "(i + 1) * bs \<le> length df \<Longrightarrow> length (window df bs i) = bs"
  by (simp add: window_def)

lemma readUint32_three:
  "readUint32 [x, y, z] 0 True = Inr (uint x + 2 ^ 8 * uint y + 2 ^ 16 * uint z)"
proof -
  have z: "ToUint32 (js_shl 0 24) = 0" by (simp add: ToUint32_def js_shl_def ToInt32_def)
  show ?thesis
    by (simp add: readUint32_def subarray_def buf_num_def buf_at_def
        z shl_byte_16 shl_byte_8 shl_byte_0)
qed

lemma subarray_three:
  assumes "0 \<le> a" "a + 3 \<le> int (length b)"
  shows "subarray b a (a + 3) = [b ! nat a, b ! (nat a + 1), b ! (nat a + 2)]"
proof -
  have l: "nat a + 3 \<le> length b" using assms by linarith
  have "subarray b a (a + 3) = take 3 (drop (nat a) b)"
    using assms by (simp add: subarray_def Let_def min_def)
  also have "\<dots> = [b ! nat a, b ! (nat a + 1), b ! (nat a + 2)]"
    using l by (auto intro!: nth_equalityI simp: nth_Cons' less_Suc_eq numeral_3_eq_3)
  finally show ?thesis .
qed

lemma readUint32_le24:
  "0 \<le> a \<Longrightarrow> a + 3 \<le> int (length b) \<Longrightarrow>
   readUint32 (subarray b a (a + 3)) 0 True = Inr (le24 b (nat a))"
  by (simp add: subarray_three readUint32_three le24_def)

lemma catalogBlocks_spec:
  assumes "\<forall>i\<in>set is. (i + 1) * blockSize this \<le> length (dfBuffer this)"
    and "\<forall>i\<in>set is. \<exists>v. valid (window (dfBuffer this) (blockSize this) i) = Inr v"
    and "0 \<le> ecOff" "ecOff + 3 \<le> int (blockSize this)"
    and "0 \<le> rwpOff" "rwpOff + 3 \<le> int (blockSize this)"
  shows "catalogBlocks this valid ecOff rwpOff scale is blocks rwps =
     Inr (\<lambda>k. if k \<in> set is then Some (rawBlock valid ecOff (dfBuffer this) (blockSize this) k)
               else blocks k,
          rwps @ map (storedRwp rwpOff scale (dfBuffer this) (blockSize this))
                   (filter (validWindow valid (dfBuffer this) (blockSize this)) is))"
  using assms(1,2)
proof (induction "is" arbitrary: blocks rwps)
  case Nil
  then show ?case by simp
next
  case (Cons i "is")
  let ?df = "dfBuffer this" and ?bs = "blockSize this"
  let ?w = "window ?df ?bs i"
  have g: "(i + 1) * ?bs \<le> length ?df" using Cons.prems(1) by simp
  have cp: "buf_copy ?df (replicate ?bs 0) 0 (int i * int ?bs) (int (length ?df)) = Inr ?w"
    using buf_copy_window [OF g] by simp
  have lw: "length ?w = ?bs" using g by (rule length_window)
  obtain v where v: "valid ?w = Inr v" using Cons.prems(2) by auto
  have vw: "validWindow valid ?df ?bs i = v" by (simp add: validWindow_def v)
  have ec: "readUint32 (subarray ?w ecOff (ecOff + 3)) 0 True = Inr (le24 ?w (nat ecOff))"
    using assms(3,4) lw by (simp add: readUint32_le24)
  have rw: "readUint32 (subarray ?w rwpOff (rwpOff + 3)) 0 True = Inr (le24 ?w (nat rwpOff))"
    using assms(5,6) lw by (simp add: readUint32_le24)
  have p1: "\<forall>i\<in>set is. (i + 1) * ?bs \<le> length ?df" using Cons.prems(1) by simp
  have p2: "\<forall>i\<in>set is. \<exists>v. valid (window ?df ?bs i) = Inr v" using Cons.prems(2) by simp
  note IH = Cons.IH [OF p1 p2]
  show ?case
    by (auto simp: buf_alloc_nat cp v ec rw Let_def IH rawBlock_def vw storedRwp_def fun_eq_iff)
qed

lemma lastRwp_Cons:
  "lastRwp bs (r # rs) k =
     (if nat (r div int bs) = k
      then (case lastRwp bs rs k of None \<Rightarrow> Some r | Some r' \<Rightarrow> Some r')
      else lastRwp bs rs k)"
  by (auto simp: lastRwp_def split: list.splits)

lemma assignRwps_Inr:
  "assignRwps bs blocks rwps = Inr blocks' \<Longrightarrow>
   (\<forall>r\<in>set rwps. blocks (nat (r div int bs)) \<noteq> None)
   \<and> (\<forall>k. blocks' k = (case blocks k of None \<Rightarrow> None
         | Some b \<Rightarrow> Some (case lastRwp bs rwps k of None \<Rightarrow> b | Some r \<Rightarrow> b\<lparr>rwp := r\<rparr>)))"
proof (induction rwps arbitrary: blocks)
  case Nil
  then show ?case by (auto simp: lastRwp_def split: option.splits)
next
  case (Cons r rs)
  let ?k = "nat (r div int bs)"
  from Cons.prems obtain b where b: "blocks ?k = Some b"
    and rec: "assignRwps bs (blocks(?k \<mapsto> b\<lparr>rwp := r\<rparr>)) rs = Inr blocks'"
    by (auto simp: Let_def split: option.splits)
  note IH = Cons.IH [OF rec]
  have "\<forall>r'\<in>set rs. blocks (nat (r' div int bs)) \<noteq> None"
    using IH b by (auto split: if_splits)
  moreover have "\<forall>k. blocks' k = (case blocks k of None \<Rightarrow> None
         | Some b \<Rightarrow> Some (case lastRwp bs (r # rs) k of None \<Rightarrow> b | Some r \<Rightarrow> b\<lparr>rwp := r\<rparr>))"
    using IH b by (auto simp: lastRwp_Cons split: option.splits)
  ultimately show ?case using b by simp
qed

lemma assignRwps_succeeds:
  "\<forall>r\<in>set rwps. blocks (nat (r div int bs)) \<noteq> None \<Longrightarrow>
   \<exists>blocks'. assignRwps bs blocks rwps = Inr blocks'"
proof (induction rwps arbitrary: blocks)
  case Nil
  then show ?case by simp
next
  case (Cons r rs)
  then obtain b where b: "blocks (nat (r div int bs)) = Some b" by auto
  have "\<forall>r'\<in>set rs. (blocks(nat (r div int bs) \<mapsto> b\<lparr>rwp := r\<rparr>)) (nat (r' div int bs)) \<noteq> None"
    using Cons.prems by simp
  from Cons.IH [OF this] b show ?case by (simp add: Let_def fun_upd_def)
qed

lemma last_filter_upt:
  assumes "i < n" "P i" "\<forall>j. i < j \<and> j < n \<longrightarrow> \<not> P j"
  shows "filter P [0..<n] = filter P [0..<i] @ [i]"
proof -
  have "[0..<n] = [0..<i] @ [i] @ [Suc i..<n]"
    using assms(1) by (metis append_Cons append_Nil le0 less_imp_le_nat upt_add_eq_append
        upt_conv_Cons le_add_diff_inverse)
  moreover have "filter P [Suc i..<n] = []" using assms(3) by (auto simp: filter_empty_conv)
  ultimately show ?thesis using assms(2) by simp
qed

lemma lastRwp_snoc:
  assumes "filter (\<lambda>r. nat (r div int bs) = k) rwps = xs @ [x]"
  shows "lastRwp bs rwps k = Some x"
proof -
  obtain r rs where c: "xs @ [x] = r # rs" by (cases xs) auto
  then have "last (r # rs) = x" by (metis last_snoc)
  then show ?thesis unfolding lastRwp_def assms c by simp
qed

lemma getBlocksData_Inr:
  assumes geo: "length (dfBuffer this) = nBlocks this * blockSize this"
    and tot: "\<forall>i<nBlocks this. \<exists>v. valid (window (dfBuffer this) (blockSize this) i) = Inr v"
    and off: "0 \<le> ecOff" "ecOff + 3 \<le> int (blockSize this)"
             "0 \<le> rwpOff" "rwpOff + 3 \<le> int (blockSize this)"
    and res: "getBlocksData this valid ecOff rwpOff scale = Inr bd"
    and i: "i < nBlocks this"
  shows "\<exists>b. bd i = Some b \<and> id_blk b = i \<and> buf b = window (dfBuffer this) (blockSize this) i
      \<and> isValid b = validWindow valid (dfBuffer this) (blockSize this) i
      \<and> eraseCount b = le24 (buf b) (nat ecOff)
      \<and> (isValid b \<and> lastToAddress bd (blockSize this) (\<lambda>c. le24 (buf c) (nat rwpOff) * scale) i
          \<longrightarrow> (\<exists>b'. bd (nat (le24 (buf b) (nat rwpOff) * scale div int (blockSize this))) = Some b'
                \<and> rwp b' = le24 (buf b) (nat rwpOff) * scale))"
proof -
  let ?df = "dfBuffer this" and ?bs = "blockSize this" and ?n = "nBlocks this"
  let ?vw = "validWindow valid ?df ?bs" and ?sr = "storedRwp rwpOff scale ?df ?bs"
  let ?raw = "\<lambda>k. if k \<in> set [0..<?n] then Some (rawBlock valid ecOff ?df ?bs k) else Map.empty k"
  let ?rwps = "[] @ map ?sr (filter ?vw [0..<?n])"
  have g: "\<forall>i\<in>set [0..<?n]. (i + 1) * ?bs \<le> length ?df"
  proof
    fix j assume "j \<in> set [0..<?n]"
    then have "j + 1 \<le> ?n" by simp
    then have "(j + 1) * ?bs \<le> ?n * ?bs" by (rule mult_le_mono1)
    then show "(j + 1) * ?bs \<le> length ?df" using geo by simp
  qed
  have t: "\<forall>i\<in>set [0..<?n]. \<exists>v. valid (window ?df ?bs i) = Inr v" using tot by simp
  have cat: "catalogBlocks this valid ecOff rwpOff scale [0..<?n] Map.empty [] = Inr (?raw, ?rwps)"
    by (rule catalogBlocks_spec [OF g t off])
  then have asg: "assignRwps ?bs ?raw ?rwps = Inr bd"
    using res by (simp add: getBlocksData_def)
  note A = assignRwps_Inr [OF asg]
  define b where "b = (case lastRwp ?bs ?rwps i of None \<Rightarrow> rawBlock valid ecOff ?df ?bs i
                        | Some r \<Rightarrow> (rawBlock valid ecOff ?df ?bs i)\<lparr>rwp := r\<rparr>)"
  have bi: "bd i = Some b" using A i by (simp add: b_def)
  have f: "id_blk b = i" "buf b = window ?df ?bs i" "isValid b = ?vw i"
    "eraseCount b = le24 (buf b) (nat ecOff)"
    by (simp_all add: b_def rawBlock_def split: option.splits)
  have r: "\<exists>b'. bd (nat (?sr i div int ?bs)) = Some b' \<and> rwp b' = ?sr i"
    if v: "?vw i" and la: "lastToAddress bd ?bs (\<lambda>c. le24 (buf c) (nat rwpOff) * scale) i"
  proof -
    let ?k = "nat (?sr i div int ?bs)"
    let ?P = "\<lambda>j. ?vw j \<and> nat (?sr j div int ?bs) = ?k"
    have "?sr i \<in> set ?rwps" using v i by simp
    then have "?raw ?k \<noteq> None" using A by blast
    then have kn: "?k < ?n" by (simp split: if_splits)
    have later: "\<forall>j. i < j \<and> j < ?n \<longrightarrow> \<not> ?P j"
    proof (intro allI impI notI)
      fix j assume j: "i < j \<and> j < ?n" and p: "?P j"
      define c where "c = (case lastRwp ?bs ?rwps j of None \<Rightarrow> rawBlock valid ecOff ?df ?bs j
                        | Some r \<Rightarrow> (rawBlock valid ecOff ?df ?bs j)\<lparr>rwp := r\<rparr>)"
      have cj: "bd j = Some c" using A j by (simp add: c_def)
      have fc: "buf c = window ?df ?bs j" "isValid c = ?vw j"
        by (simp_all add: c_def rawBlock_def split: option.splits)
      have vc: "isValid c" using p fc by simp
      have ij: "i < j" using j by simp
      from la ij bi cj vc
      have "nat (le24 (buf c) (nat rwpOff) * scale div int ?bs)
            \<noteq> nat (le24 (buf b) (nat rwpOff) * scale div int ?bs)"
        unfolding lastToAddress_def by blast
      then show False using p f(2) fc(1) by (simp add: storedRwp_def)
    qed
    have "filter (\<lambda>r. nat (r div int ?bs) = ?k) ?rwps = map ?sr (filter ?P [0..<?n])"
      by (simp add: filter_map comp_def conj_commute)
    also have "filter ?P [0..<?n] = filter ?P [0..<i] @ [i]"
      using i v later by (intro last_filter_upt) auto
    finally have "lastRwp ?bs ?rwps ?k = Some (?sr i)"
      by (intro lastRwp_snoc [where xs = "map ?sr (filter ?P [0..<i])"]) simp
    then have "bd ?k = Some ((rawBlock valid ecOff ?df ?bs ?k)\<lparr>rwp := ?sr i\<rparr>)"
      using A kn by simp
    then show ?thesis by simp
  qed
  show ?thesis
    using bi f r by (auto simp: storedRwp_def)
qed

lemma length_imageA: "length (imageA ec rw slots dat) = 0x1000"
  by (simp add: imageA_def)

lemma imageA_flags:
  "le32 (imageA ec rw slots dat) 0x10 = 0x55555555"
  "le32 (imageA ec rw slots dat) 0x18 = 0x55555555"
  "le32 (imageA ec rw slots dat) 0x20 = 0x55555555"
  by (simp_all add: imageA_def le32_def nth_append)

lemma window_whole: "length df = bs \<Longrightarrow> window df bs 0 = df"
  by (simp add: window_def)

lemma getBlocksData_dom:
  assumes geo: "length (dfBuffer this) = nBlocks this * blockSize this"
    and tot: "\<forall>i<nBlocks this. \<exists>v. valid (window (dfBuffer this) (blockSize this) i) = Inr v"
    and off: "0 \<le> ecOff" "ecOff + 3 \<le> int (blockSize this)"
             "0 \<le> rwpOff" "rwpOff + 3 \<le> int (blockSize this)"
    and res: "getBlocksData this valid ecOff rwpOff scale = Inr bd"
  shows "bd k = None \<longleftrightarrow> nBlocks this \<le> k"
proof -
  let ?df = "dfBuffer this" and ?bs = "blockSize this" and ?n = "nBlocks this"
  let ?vw = "validWindow valid ?df ?bs" and ?sr = "storedRwp rwpOff scale ?df ?bs"
  let ?raw = "\<lambda>k. if k \<in> set [0..<?n] then Some (rawBlock valid ecOff ?df ?bs k) else Map.empty k"
  let ?rwps = "[] @ map ?sr (filter ?vw [0..<?n])"
  have g: "\<forall>i\<in>set [0..<?n]. (i + 1) * ?bs \<le> length ?df"
  proof
    fix j assume "j \<in> set [0..<?n]"
    then have "j + 1 \<le> ?n" by simp
    then have "(j + 1) * ?bs \<le> ?n * ?bs" by (rule mult_le_mono1)
    then show "(j + 1) * ?bs \<le> length ?df" using geo by simp
  qed
  have t: "\<forall>i\<in>set [0..<?n]. \<exists>v. valid (window ?df ?bs i) = Inr v" using tot by simp
  have cat: "catalogBlocks this valid ecOff rwpOff scale [0..<?n] Map.empty [] = Inr (?raw, ?rwps)"
    by (rule catalogBlocks_spec [OF g t off])
  then have asg: "assignRwps ?bs ?raw ?rwps = Inr bd"
    using res by (simp add: getBlocksData_def)
  from assignRwps_Inr [OF asg] show ?thesis by (auto split: option.splits if_splits)
qed

lemma getBlocksData_succeeds:
  assumes geo: "length (dfBuffer this) = nBlocks this * blockSize this"
    and tot: "\<forall>i<nBlocks this. \<exists>v. valid (window (dfBuffer this) (blockSize this) i) = Inr v"
    and off: "0 \<le> ecOff" "ecOff + 3 \<le> int (blockSize this)"
             "0 \<le> rwpOff" "rwpOff + 3 \<le> int (blockSize this)"
    and adr: "\<forall>i<nBlocks this. validWindow valid (dfBuffer this) (blockSize this) i \<longrightarrow>
                nat (storedRwp rwpOff scale (dfBuffer this) (blockSize this) i div int (blockSize this))
                  < nBlocks this"
  shows "\<exists>bd. getBlocksData this valid ecOff rwpOff scale = Inr bd"
proof -
  let ?df = "dfBuffer this" and ?bs = "blockSize this" and ?n = "nBlocks this"
  let ?vw = "validWindow valid ?df ?bs" and ?sr = "storedRwp rwpOff scale ?df ?bs"
  let ?raw = "\<lambda>k. if k \<in> set [0..<?n] then Some (rawBlock valid ecOff ?df ?bs k) else Map.empty k"
  let ?rwps = "[] @ map ?sr (filter ?vw [0..<?n])"
  have g: "\<forall>i\<in>set [0..<?n]. (i + 1) * ?bs \<le> length ?df"
  proof
    fix j assume "j \<in> set [0..<?n]"
    then have "j + 1 \<le> ?n" by simp
    then have "(j + 1) * ?bs \<le> ?n * ?bs" by (rule mult_le_mono1)
    then show "(j + 1) * ?bs \<le> length ?df" using geo by simp
  qed
  have t: "\<forall>i\<in>set [0..<?n]. \<exists>v. valid (window ?df ?bs i) = Inr v" using tot by simp
  have cat: "catalogBlocks this valid ecOff rwpOff scale [0..<?n] Map.empty [] = Inr (?raw, ?rwps)"
    by (rule catalogBlocks_spec [OF g t off])
  have "\<forall>r\<in>set ?rwps. ?raw (nat (r div int ?bs)) \<noteq> None" using adr by auto
  from assignRwps_succeeds [OF this] cat show ?thesis by (simp add: getBlocksData_def)
qed

lemma isValidBlock_A_total:
  "blockSize this = BLOCK_SIZE_A \<Longrightarrow> length (dfBuffer this) = nBlocks this * blockSize this \<Longrightarrow>
   \<forall>i<nBlocks this. \<exists>v. isValidBlock_A this (window (dfBuffer this) (blockSize this) i) = Inr v"
proof (intro allI impI)
  fix i assume a: "blockSize this = BLOCK_SIZE_A"
    "length (dfBuffer this) = nBlocks this * blockSize this" "i < nBlocks this"
  then have "i + 1 \<le> nBlocks this" by simp
  then have "(i + 1) * blockSize this \<le> nBlocks this * blockSize this" by (rule mult_le_mono1)
  then have "length (window (dfBuffer this) (blockSize this) i) = blockSize this"
    using a(2) by (simp add: length_window)
  then show "\<exists>v. isValidBlock_A this (window (dfBuffer this) (blockSize this) i) = Inr v"
    using a(1) by (simp add: isValidBlock_A_spec)
qed

lemma isValidBlock_B_total:
  "blockSize this = BLOCK_SIZE_B \<Longrightarrow> length (dfBuffer this) = nBlocks this * blockSize this \<Longrightarrow>
   \<forall>i<nBlocks this. \<exists>v. isValidBlock_B (window (dfBuffer this) (blockSize this) i) = Inr v"
proof (intro allI impI)
  fix i assume a: "blockSize this = BLOCK_SIZE_B"
    "length (dfBuffer this) = nBlocks this * blockSize this" "i < nBlocks this"
  then have "i + 1 \<le> nBlocks this" by simp
  then have "(i + 1) * blockSize this \<le> nBlocks this * blockSize this" by (rule mult_le_mono1)
  then have "length (window (dfBuffer this) (blockSize this) i) = BLOCK_SIZE_B"
    using a(1,2) by (simp add: length_window)
  then show "\<exists>v. isValidBlock_B (window (dfBuffer this) (blockSize this) i) = Inr v"
    by (simp add: isValidBlock_B_spec)
qed

text \<open>
  C7, as the code has it.  For every block \<open>i\<close> of a catalog built over an image of
  \<open>nBlocks\<close> blocks, the catalog's \<open>eraseCount\<close> is the little-endian value of the three
  bytes at the family's erase-counter offset (0x28 for family A, 0x10 for family B) of
  the block's window; and when the block is valid and no later valid block addresses
  the same block, the block addressed by its write pointer carries as \<open>rwp\<close> 2 times
  the little-endian value of the three bytes at 0x30 (family A), or the little-endian
  value of the three bytes at 0x14 (family B).
\<close>

theorem catalog_fields:
  assumes "length (dfBuffer this) = nBlocks this * blockSize this" and "i < nBlocks this"
  shows
   "(blockSize this = BLOCK_SIZE_A \<and> getBlocksData_A this = Inr bd \<longrightarrow>
      (\<exists>b. bd i = Some b \<and> buf b = window (dfBuffer this) (blockSize this) i
         \<and> eraseCount b = le24 (buf b) 0x28
         \<and> (isValid b \<and> lastToAddress bd (blockSize this) (\<lambda>c. le24 (buf c) 0x30 * 2) i
            \<longrightarrow> (\<exists>b'. bd (nat (le24 (buf b) 0x30 * 2 div int (blockSize this))) = Some b'
                  \<and> rwp b' = le24 (buf b) 0x30 * 2))))
    \<and> (blockSize this = BLOCK_SIZE_B \<and> getBlocksData_B this = Inr bd \<longrightarrow>
      (\<exists>b. bd i = Some b \<and> buf b = window (dfBuffer this) (blockSize this) i
         \<and> eraseCount b = le24 (buf b) 0x10
         \<and> (isValid b \<and> lastToAddress bd (blockSize this) (\<lambda>c. le24 (buf c) 0x14) i
            \<longrightarrow> (\<exists>b'. bd (nat (le24 (buf b) 0x14 div int (blockSize this))) = Some b'
                  \<and> rwp b' = le24 (buf b) 0x14))))"
proof (intro conjI impI)
  assume a: "blockSize this = BLOCK_SIZE_A \<and> getBlocksData_A this = Inr bd"
  then have o: "(0::int) \<le> 0x28" "0x28 + 3 \<le> int (blockSize this)"
               "(0::int) \<le> 0x30" "0x30 + 3 \<le> int (blockSize this)"
    by (simp_all add: BLOCK_SIZE_A_def)
  have r: "getBlocksData this (isValidBlock_A this) 0x28 0x30 2 = Inr bd"
    using a by (simp add: getBlocksData_A_def)
  from getBlocksData_Inr [OF assms(1) isValidBlock_A_total [OF conjunct1 [OF a] assms(1)] o r assms(2)]
  show "\<exists>b. bd i = Some b \<and> buf b = window (dfBuffer this) (blockSize this) i
         \<and> eraseCount b = le24 (buf b) 0x28
         \<and> (isValid b \<and> lastToAddress bd (blockSize this) (\<lambda>c. le24 (buf c) 0x30 * 2) i
            \<longrightarrow> (\<exists>b'. bd (nat (le24 (buf b) 0x30 * 2 div int (blockSize this))) = Some b'
                  \<and> rwp b' = le24 (buf b) 0x30 * 2))"
    by auto
next
  assume a: "blockSize this = BLOCK_SIZE_B \<and> getBlocksData_B this = Inr bd"
  then have o: "(0::int) \<le> 0x10" "0x10 + 3 \<le> int (blockSize this)"
               "(0::int) \<le> 0x14" "0x14 + 3 \<le> int (blockSize this)"
    by (simp_all add: BLOCK_SIZE_B_def)
  have r: "getBlocksData this isValidBlock_B 0x10 0x14 1 = Inr bd"
    using a by (simp add: getBlocksData_B_def)
  from getBlocksData_Inr [OF assms(1) isValidBlock_B_total [OF conjunct1 [OF a] assms(1)] o r assms(2)]
  show "\<exists>b. bd i = Some b \<and> buf b = window (dfBuffer this) (blockSize this) i
         \<and> eraseCount b = le24 (buf b) 0x10
         \<and> (isValid b \<and> lastToAddress bd (blockSize this) (\<lambda>c. le24 (buf c) 0x14) i
            \<longrightarrow> (\<exists>b'. bd (nat (le24 (buf b) 0x14 div int (blockSize this))) = Some b'
                  \<and> rwp b' = le24 (buf b) 0x14))"
    by auto
qed

lemma length_imageB: "length (imageB g) = 0x800"
  by (simp add: imageB_def)

lemma imageB_flags:
  "le32 (imageB g) 0x04 = 0x55555555"
  "le32 (imageB g) 0x08 = 0x55555555"
  "le32 (imageB g) 0x0c = 0x55555555"
  "sum8 (imageB g) 0x10 0x13 = 0xff"
  "sum8 (imageB g) 0x14 0x17 = 0xff"
  by (simp_all add: imageB_def le32_def sum8_def nth_append)

lemma imageB_header:
  "le24 (imageB g) 0x10 = 1" "le24 (imageB g) 0x14 = 0x48"
  by (simp_all add: imageB_def le24_def nth_append)

lemma image_c7_header:
  "le24 image_c7 0x28 = 2" "le32 image_c7 0x28 = 0x01000002"
  "le24 image_c7 0x30 = 0x40" "le32 image_c7 0x30 = 0x01000040"
  by (simp_all add: image_c7_def imageA_def le24_def le32_def nth_append)

lemma single_block_catalog:
  assumes bs: "blockSize this = length (dfBuffer this)" "nBlocks this = 1"
    and v: "valid (dfBuffer this) = Inr True"
    and off: "0 \<le> ecOff" "ecOff + 3 \<le> int (blockSize this)"
             "0 \<le> rwpOff" "rwpOff + 3 \<le> int (blockSize this)"
    and p: "0 \<le> le24 (dfBuffer this) (nat rwpOff) * scale"
           "le24 (dfBuffer this) (nat rwpOff) * scale < int (blockSize this)"
  shows "getBlocksData this valid ecOff rwpOff scale =
     Inr [0 \<mapsto> \<lparr>id_blk = 0, isValid = True, eraseCount = le24 (dfBuffer this) (nat ecOff),
                 rwp = le24 (dfBuffer this) (nat rwpOff) * scale, buf = dfBuffer this\<rparr>]"
proof -
  let ?df = "dfBuffer this" and ?bs = "blockSize this"
  have w: "window ?df ?bs 0 = ?df" using bs(1) by (simp add: window_whole)
  have geo: "length ?df = nBlocks this * ?bs" using bs by simp
  have tot: "\<forall>i<nBlocks this. \<exists>v. valid (window ?df ?bs i) = Inr v" using bs(2) w v by auto
  have vw: "validWindow valid ?df ?bs 0" using v w by (simp add: validWindow_def)
  have sr: "storedRwp rwpOff scale ?df ?bs 0 = le24 ?df (nat rwpOff) * scale"
    by (simp add: storedRwp_def w)
  have d0: "le24 ?df (nat rwpOff) * scale div int ?bs = 0" using p by simp
  have adr: "\<forall>i<nBlocks this. validWindow valid ?df ?bs i \<longrightarrow>
       nat (storedRwp rwpOff scale ?df ?bs i div int ?bs) < nBlocks this"
    using bs(2) sr d0 by simp
  from getBlocksData_succeeds [OF geo tot off adr]
  obtain bd where bd: "getBlocksData this valid ecOff rwpOff scale = Inr bd" by blast
  have none: "\<And>k. bd k = None \<longleftrightarrow> 1 \<le> k"
    using getBlocksData_dom [OF geo tot off bd] bs(2) by simp
  have la: "lastToAddress bd ?bs (\<lambda>c. le24 (buf c) (nat rwpOff) * scale) 0"
    unfolding lastToAddress_def using none by (metis One_nat_def Suc_leI option.distinct(1))
  from getBlocksData_Inr [OF geo tot off bd, of 0] bs(2)
  obtain b where b: "bd 0 = Some b" "id_blk b = 0" "buf b = ?df" "isValid b"
    "eraseCount b = le24 ?df (nat ecOff)"
    and r: "\<exists>b'. bd (nat (le24 ?df (nat rwpOff) * scale div int ?bs)) = Some b'
                \<and> rwp b' = le24 ?df (nat rwpOff) * scale"
    using w vw la by auto
  have "rwp b = le24 ?df (nat rwpOff) * scale" using r b(1) d0 by simp
  then have "b = \<lparr>id_blk = 0, isValid = True, eraseCount = le24 ?df (nat ecOff),
                 rwp = le24 ?df (nat rwpOff) * scale, buf = ?df\<rparr>"
    using b by simp
  then have "bd = [0 \<mapsto> \<lparr>id_blk = 0, isValid = True, eraseCount = le24 ?df (nat ecOff),
                 rwp = le24 ?df (nat rwpOff) * scale, buf = ?df\<rparr>]"
    using b(1) none by (auto simp: fun_eq_iff)
  then show ?thesis using bd by simp
qed

text \<open>
  C7 as stated fails: in \<open>image_c7\<close> the 32-bit words at 0x28 and 0x30 are 0x01000002 and
  0x01000040, while the catalog holds the erase counter 2 and the write pointer 0x80.
\<close>

theorem catalog_fields_counterexample:
  "\<exists>this bd b. NecEmulator_new image_c7 BLOCK_SIZE_A = Inr (this :: EepData NecEmulator)
     \<and> getBlocksData_A this = Inr bd \<and> bd 0 = Some b \<and> isValid b
     \<and> eraseCount b = 2 \<and> le32 (buf b) 0x28 = 0x01000002
     \<and> rwp b = 0x80 \<and> 2 * le32 (buf b) 0x30 = 0x02000080"
proof -
  let ?t = "instance_of image_c7 BLOCK_SIZE_A"
  have l: "length image_c7 = 0x1000" by (simp add: image_c7_def length_imageA)
  have n: "NecEmulator_new image_c7 BLOCK_SIZE_A = Inr ?t"
    by (simp add: NecEmulator_new_def instance_of_def l BLOCK_SIZE_A_def)
  have f: "dfBuffer ?t = image_c7" "blockSize ?t = 0x1000" "nBlocks ?t = 1"
    by (simp_all add: instance_of_def l BLOCK_SIZE_A_def)
  have fl: "le32 image_c7 0x10 = 0x55555555" "le32 image_c7 0x18 = 0x55555555"
    "le32 image_c7 0x20 = 0x55555555"
    by (simp_all add: image_c7_def imageA_flags)
  have p1: "length image_c7 = blockSize ?t" and p2: "blockSize ?t = BLOCK_SIZE_A"
    by (simp_all add: instance_of_def l BLOCK_SIZE_A_def)
  have v: "isValidBlock_A ?t image_c7 = Inr True"
    unfolding isValidBlock_A_spec [OF p1 p2] by (simp add: fl)
  have "getBlocksData ?t (isValidBlock_A ?t) 0x28 0x30 2 =
     Inr [0 \<mapsto> \<lparr>id_blk = 0, isValid = True, eraseCount = le24 (dfBuffer ?t) (nat 0x28),
                 rwp = le24 (dfBuffer ?t) (nat 0x30) * 2, buf = dfBuffer ?t\<rparr>]"
    by (rule single_block_catalog) (simp_all add: f l v image_c7_header)
  then have "getBlocksData_A ?t =
     Inr [0 \<mapsto> \<lparr>id_blk = 0, isValid = True, eraseCount = 2, rwp = 0x80, buf = image_c7\<rparr>]"
    by (simp add: getBlocksData_A_def f image_c7_header)
  then show ?thesis using n by (simp add: image_c7_header)
qed

lemma image_c7_catalog:
  "getBlocksData_A (instance_of image_c7 BLOCK_SIZE_A) =
     Inr [0 \<mapsto> \<lparr>id_blk = 0, isValid = True, eraseCount = 2, rwp = 0x80, buf = image_c7\<rparr>]"
proof -
  let ?t = "instance_of image_c7 BLOCK_SIZE_A"
  have l: "length image_c7 = 0x1000" by (simp add: image_c7_def length_imageA)
  have f: "dfBuffer ?t = image_c7" "blockSize ?t = 0x1000" "nBlocks ?t = 1"
    by (simp_all add: instance_of_def l BLOCK_SIZE_A_def)
  have fl: "le32 image_c7 0x10 = 0x55555555" "le32 image_c7 0x18 = 0x55555555"
    "le32 image_c7 0x20 = 0x55555555"
    by (simp_all add: image_c7_def imageA_flags)
  have p1: "length image_c7 = blockSize ?t" and p2: "blockSize ?t = BLOCK_SIZE_A"
    by (simp_all add: instance_of_def l BLOCK_SIZE_A_def)
  have v: "isValidBlock_A ?t image_c7 = Inr True"
    unfolding isValidBlock_A_spec [OF p1 p2] by (simp add: fl)
  have "getBlocksData ?t (isValidBlock_A ?t) 0x28 0x30 2 =
     Inr [0 \<mapsto> \<lparr>id_blk = 0, isValid = True, eraseCount = le24 (dfBuffer ?t) (nat 0x28),
                 rwp = le24 (dfBuffer ?t) (nat 0x30) * 2, buf = dfBuffer ?t\<rparr>]"
    by (rule single_block_catalog) (simp_all add: f l v image_c7_header)
  then show ?thesis by (simp add: getBlocksData_A_def f image_c7_header)
qed

lemma imageB_catalog:
  "getBlocksData_B (instance_of (imageB g) BLOCK_SIZE_B) =
     Inr [0 \<mapsto> \<lparr>id_blk = 0, isValid = True, eraseCount = 1, rwp = 0x48, buf = imageB g\<rparr>]"
proof -
  let ?t = "instance_of (imageB g) BLOCK_SIZE_B"
  have l: "length (imageB g) = 0x800" by (rule length_imageB)
  have f: "dfBuffer ?t = imageB g" "blockSize ?t = 0x800" "nBlocks ?t = 1"
    by (simp_all add: instance_of_def l BLOCK_SIZE_B_def)
  have p1: "length (imageB g) = BLOCK_SIZE_B" by (simp add: l BLOCK_SIZE_B_def)
  have v: "isValidBlock_B (imageB g) = Inr True"
    unfolding isValidBlock_B_spec [OF p1] by (simp add: imageB_flags)
  have "getBlocksData ?t isValidBlock_B 0x10 0x14 1 =
     Inr [0 \<mapsto> \<lparr>id_blk = 0, isValid = True, eraseCount = le24 (dfBuffer ?t) (nat 0x10),
                 rwp = le24 (dfBuffer ?t) (nat 0x14) * 1, buf = dfBuffer ?t\<rparr>]"
    by (rule single_block_catalog) (simp_all add: f l v imageB_header)
  then show ?thesis by (simp add: getBlocksData_B_def f imageB_header)
qed

theorem catalog_fields_witness:
  "(\<exists>bd b. getBlocksData_A (instance_of image_c7 BLOCK_SIZE_A) = Inr bd \<and> bd 0 = Some b
      \<and> isValid b \<and> eraseCount b = le24 (buf b) 0x28 \<and> rwp b = le24 (buf b) 0x30 * 2)
   \<and> (\<exists>bd b. getBlocksData_B (instance_of (imageB 0) BLOCK_SIZE_B) = Inr bd \<and> bd 0 = Some b
      \<and> isValid b \<and> eraseCount b = le24 (buf b) 0x10 \<and> rwp b = le24 (buf b) 0x14)"
proof -
  let ?a = "instance_of image_c7 BLOCK_SIZE_A" and ?b = "instance_of (imageB 0) BLOCK_SIZE_B"
  let ?bda = "[0 \<mapsto> \<lparr>id_blk = 0, isValid = True, eraseCount = 2, rwp = 0x80, buf = image_c7\<rparr>]"
  let ?bdb = "[0 \<mapsto> \<lparr>id_blk = 0, isValid = True, eraseCount = 1, rwp = 0x48, buf = imageB 0\<rparr>]"
  have la: "length image_c7 = 0x1000" by (simp add: image_c7_def length_imageA)
  have ga: "length (dfBuffer ?a) = nBlocks ?a * blockSize ?a" "0 < nBlocks ?a"
    "blockSize ?a = BLOCK_SIZE_A"
    by (simp_all add: instance_of_def la BLOCK_SIZE_A_def)
  have gb: "length (dfBuffer ?b) = nBlocks ?b * blockSize ?b" "0 < nBlocks ?b"
    "blockSize ?b = BLOCK_SIZE_B"
    by (simp_all add: instance_of_def length_imageB BLOCK_SIZE_B_def)
  have lta: "lastToAddress ?bda (blockSize ?a) (\<lambda>c. le24 (buf c) 0x30 * 2) 0"
    by (simp add: lastToAddress_def)
  have ltb: "lastToAddress ?bdb (blockSize ?b) (\<lambda>c. le24 (buf c) 0x14) 0"
    by (simp add: lastToAddress_def)
  have sa: "blockSize ?a = 0x1000" and sb: "blockSize ?b = 0x800"
    by (simp_all add: instance_of_def BLOCK_SIZE_A_def BLOCK_SIZE_B_def)
  have da: "le24 image_c7 0x30 * 2 div int (blockSize ?a) = 0"
    by (simp add: image_c7_header sa)
  have db: "le24 (imageB 0) 0x14 div int (blockSize ?b) = 0"
    by (simp add: imageB_header sb)
  from catalog_fields [OF ga(1,2), of ?bda] ga(3) image_c7_catalog lta da
  have A: "\<exists>b. ?bda 0 = Some b \<and> isValid b \<and> eraseCount b = le24 (buf b) 0x28
      \<and> rwp b = le24 (buf b) 0x30 * 2"
    by simp
  from catalog_fields [OF gb(1,2), of ?bdb] gb(3) imageB_catalog ltb db
  have B: "\<exists>b. ?bdb 0 = Some b \<and> isValid b \<and> eraseCount b = le24 (buf b) 0x10
      \<and> rwp b = le24 (buf b) 0x14"
    by simp
  show ?thesis using A B image_c7_catalog imageB_catalog by blast
qed

section \<open>Family B: loading the table\<close>

lemma le32_bounds: "0 \<le> le32 b a" "le32 b a < 2 ^ 32"
proof -
  have "0 \<le> uint (b ! a)" "uint (b ! a) < 256" "0 \<le> uint (b ! (a + 1))" "uint (b ! (a + 1)) < 256"
    "0 \<le> uint (b ! (a + 2))" "uint (b ! (a + 2)) < 256" "0 \<le> uint (b ! (a + 3))"
    "uint (b ! (a + 3)) < 256"
    by (rule uint_byte_bounds)+
  then show "0 \<le> le32 b a" "le32 b a < 2 ^ 32" by (simp_all add: le32_def)
qed

lemma readUint32_le32_nat:
  "a + 4 \<le> length b \<Longrightarrow> readUint32 b (int a) True = Inr (le32 b a)"
  using readUint32_le32 [of "int a" b] by simp

lemma buf_copy_length: "buf_copy s t a b c = Inr r \<Longrightarrow> length r = length t"
  by (auto simp: buf_copy_def Let_def min_def split: if_splits)

lemma long_entry_rejected:
  assumes w: "0 \<le> w" "w < 2 ^ 32" "int BLOCK_SIZE_B < w div 2 ^ 16"
  shows "js_shr w 16 < 0 \<or> int BLOCK_SIZE_B < js_shr w 16"
proof (cases "w < 2 ^ 31")
  case True
  then have "ToInt32 w = w" using w(1) by (simp add: ToInt32_small)
  then show ?thesis using w(3) by (simp add: js_shr_def)
next
  case False
  then have "ToInt32 w = w - 2 ^ 32" using w(1,2) by (simp add: ToInt32_def)
  moreover have "(w - 2 ^ 32) div 2 ^ 16 < 0" using w(2) by simp
  ultimately show ?thesis by (simp add: js_shr_def)
qed

lemma populateDataInfoWTable_loop_fails:
  assumes "length table = 4 * n" "k < n" "int BLOCK_SIZE_B < le32 table (4 * k) div 2 ^ 16"
  shows "j \<le> k \<Longrightarrow> \<exists>e. populateDataInfoWTable_loop table (4 * j) eep hp = Inl e"
proof (induction "k - j" arbitrary: j eep hp)
  case 0
  then have jk: "j = k" by simp
  have r: "readUint32 table (int (4 * k)) True = Inr (le32 table (4 * k))"
    using assms(1,2) by (intro readUint32_le32_nat) simp
  have "js_shr (le32 table (4 * k)) 16 < 0 \<or> int BLOCK_SIZE_B < js_shr (le32 table (4 * k)) 16"
    using le32_bounds [of table "4 * k"] assms(3) by (intro long_entry_rejected) auto
  then show ?case
    using assms(1,2) r unfolding jk
    by (subst populateDataInfoWTable_loop.simps) (auto simp: Let_def buf_alloc_def)
next
  case (Suc d)
  then have jk: "j < k" "d = k - (j + 1)" "j + 1 \<le> k" by simp_all
  have r: "readUint32 table (int (4 * j)) True = Inr (le32 table (4 * j))"
    using assms(1,2) jk(1) by (intro readUint32_le32_nat) simp
  have n: "4 * j + 4 = 4 * (j + 1)" by simp
  show ?case
    using assms(1,2) jk(1) r Suc(1) [OF jk(2,3)] unfolding n [symmetric]
    by (subst populateDataInfoWTable_loop.simps)
       (auto simp: Let_def split: sum.splits)
qed

lemma extend_fields:
  "cfBuf (NecEmulator.extend base (Emu_RH850.fields c h t hp)) = c"
  "dataTable (NecEmulator.extend base (Emu_RH850.fields c h t hp)) = t"
  "heap (NecEmulator.extend base (Emu_RH850.fields c h t hp)) = hp"
  "tableHeaderAddr (NecEmulator.extend base (Emu_RH850.fields c h t hp)) = h"
  "eepData (NecEmulator.extend base (Emu_RH850.fields c h t hp)) = eepData base"
  "dfBuffer (NecEmulator.extend base (Emu_RH850.fields c h t hp)) = dfBuffer base"
  "blockSize (NecEmulator.extend base (Emu_RH850.fields c h t hp)) = blockSize base"
  "nBlocks (NecEmulator.extend base (Emu_RH850.fields c h t hp)) = nBlocks base"
  "blockData (NecEmulator.extend base (Emu_RH850.fields c h t hp)) = blockData base"
  "activeBlocks (NecEmulator.extend base (Emu_RH850.fields c h t hp)) = activeBlocks base"
  by (simp_all add: NecEmulator.defs Emu_RH850.defs)

text \<open>
  C8.  Family B: the constructor fails in the half that runs before the block catalog is
  built, whatever the image, whenever the table header address plus the 16 bytes of
  the header exceeds the length of the code image, or whenever the id/length table
  copied from the code image has an entry whose encoded length (the high 16 bits of
  its word) exceeds the block size.
\<close>

theorem table_load_fatal:
  assumes "int (length cf) < hdr + 0x10
     \<or> (\<exists>tbl table k. getDataTable cf hdr = Inr tbl
          \<and> buf_copy cf (replicate (nat (entries tbl * 4)) 0) 0 (pointer_rom tbl)
               (pointer_rom tbl + entries tbl * 4) = Inr table
          \<and> k < nat (entries tbl) \<and> int BLOCK_SIZE_B < le32 table (4 * k) div 2 ^ 16)"
  shows "\<exists>e. Emu_RH850_setup dfBuf cf hdr = Inl e \<and> Emu_RH850_new dfBuf cf hdr = Inl e"
proof -
  have "\<exists>e. Emu_RH850_setup dfBuf cf hdr = Inl e"
    using assms
  proof
    assume "int (length cf) < hdr + 0x10"
    then have "getDataTable cf hdr = Inl InvalidTableHeader" by (simp add: getDataTable_def)
    then show ?thesis by (simp add: Emu_RH850_setup_def split: sum.splits)
  next
    assume "\<exists>tbl table k. getDataTable cf hdr = Inr tbl
          \<and> buf_copy cf (replicate (nat (entries tbl * 4)) 0) 0 (pointer_rom tbl)
               (pointer_rom tbl + entries tbl * 4) = Inr table
          \<and> k < nat (entries tbl) \<and> int BLOCK_SIZE_B < le32 table (4 * k) div 2 ^ 16"
    then obtain tbl table k where t: "getDataTable cf hdr = Inr tbl"
      and c: "buf_copy cf (replicate (nat (entries tbl * 4)) 0) 0 (pointer_rom tbl)
               (pointer_rom tbl + entries tbl * 4) = Inr table"
      and k: "k < nat (entries tbl)" "int BLOCK_SIZE_B < le32 table (4 * k) div 2 ^ 16"
      by blast
    have e: "0 \<le> entries tbl" using k(1) by simp
    have l: "length table = 4 * nat (entries tbl)"
      using buf_copy_length [OF c] e by (simp add: nat_mult_distrib)
    have a: "buf_alloc (entries tbl * 4) = Inr (replicate (nat (entries tbl * 4)) 0)"
      using e by (simp add: buf_alloc_def)
    have "\<And>eep hp. \<exists>e. populateDataInfoWTable_loop table 0 eep hp = Inl e"
      using populateDataInfoWTable_loop_fails [OF l k, of 0] by simp
    then have "\<And>this. cfBuf this = cf \<Longrightarrow> dataTable this = tbl \<Longrightarrow>
        \<exists>e. populateDataInfoWTable this = Inl e"
      by (simp add: populateDataInfoWTable_def a c) (metis old.sum.simps(5))
    then show ?thesis
      using t by (simp add: Emu_RH850_setup_def extend_fields split: sum.splits)
  qed
  then show ?thesis by (auto simp: Emu_RH850_new_def)
qed

theorem table_load_fatal_witness:
  "(\<exists>e. Emu_RH850_setup (imageB 0) [] 0 = Inl e \<and> Emu_RH850_new (imageB 0) [] 0 = Inl e)
   \<and> (\<exists>e. Emu_RH850_setup (imageB 0) (codeImage 0x01 0x08) 0 = Inl e
         \<and> Emu_RH850_new (imageB 0) (codeImage 0x01 0x08) 0 = Inl e)"
proof -
  have a: "int (length ([] :: Buffer)) < 0 + 0x10" by simp
  let ?tbl = "\<lparr>blockSize_tbl = 0, prepBlocks_min = 0, pointer_rom = 0x10, pointer_ram = 0,
               entries = 1, eraseSuspend = 0\<rparr>"
  have r: "readUint32 (codeImage 0x01 0x08) 0 True = Inr 0"
     "readUint32 (codeImage 0x01 0x08) 4 True = Inr 0x10"
     "readUint32 (codeImage 0x01 0x08) 8 True = Inr 0"
     "readUint32 (codeImage 0x01 0x08) 0xc True = Inr 1"
    by (simp_all add: readUint32_le32 codeImage_def le32_def)
  have z: "js_and 0 0xffff = 0" "js_shr 0 0x10 = 0" "js_and 1 0xffff = 1" "js_shr 1 0x10 = 0"
    by (simp_all add: js_and_def js_shr_def ToInt32_def)
  have t: "getDataTable (codeImage 0x01 0x08) 0 = Inr ?tbl"
    by (simp add: getDataTable_def r z) (simp add: codeImage_def)
  have c: "buf_copy (codeImage 0x01 0x08) (replicate (nat (entries ?tbl * 4)) 0) 0 (pointer_rom ?tbl)
               (pointer_rom ?tbl + entries ?tbl * 4) = Inr [0x10, 0, 0x01, 0x08]"
    by (simp add: buf_copy_def codeImage_def)
  have k: "(0::nat) < nat (entries ?tbl)"
     "int BLOCK_SIZE_B < le32 [0x10, 0, 0x01, 0x08] (4 * 0) div 2 ^ 16"
    by (simp_all add: le32_def BLOCK_SIZE_B_def)
  have b: "\<exists>tbl table k. getDataTable (codeImage 0x01 0x08) 0 = Inr tbl
          \<and> buf_copy (codeImage 0x01 0x08) (replicate (nat (entries tbl * 4)) 0) 0 (pointer_rom tbl)
               (pointer_rom tbl + entries tbl * 4) = Inr table
          \<and> k < nat (entries tbl) \<and> int BLOCK_SIZE_B < le32 table (4 * k) div 2 ^ 16"
    using t c k by blast
  show ?thesis
    using table_load_fatal [of "[]" 0 "imageB 0", OF disjI1, OF a]
      table_load_fatal [of "codeImage 0x01 0x08" 0 "imageB 0", OF disjI2, OF b]
    by (rule conjI)
qed

section \<open>Family A: records\<close>

lemma buf_num_byte: "\<exists>c::byte. buf_num b i = uint c"
proof (cases "buf_at b i")
  case None
  then have "buf_num b i = uint (0::byte)" by (simp add: buf_num_def)
  then show ?thesis by blast
next
  case (Some c)
  then have "buf_num b i = uint c" by (simp add: buf_num_def)
  then show ?thesis by blast
qed

lemma readUint32_range:
  assumes "readUint32 b a le = Inr w"
  shows "0 \<le> w \<and> w < 2 ^ 32"
proof -
  define bf where "bf = (if length b < 4
                 then (if le then b @ replicate (4 - length b) 0
                       else replicate (4 - length b) 0 @ b)
                 else b)"
  define word where "word = subarray bf a (a + 4)"
  obtain c0 c1 c2 c3 :: byte where c: "buf_num word 0 = uint c0" "buf_num word 1 = uint c1"
    "buf_num word 2 = uint c2" "buf_num word 3 = uint c3"
    using buf_num_byte by metis
  have "w = le32 [c0, c1, c2, c3] 0 \<or> w = le32 [c3, c2, c1, c0] 0"
    using assms unfolding readUint32_def Let_def bf_def [symmetric] word_def [symmetric] c
    by (auto simp: shl_byte_24 shl_byte_16 shl_byte_8 shl_byte_0 le32_def split: if_splits)
  then show ?thesis using le32_bounds by metis
qed

lemma js_ushr_0: "js_ushr x 0 = x mod 2 ^ 32"
  by (simp add: js_ushr_def ToUint32_def)

lemma checksum_fold:
  "dat \<noteq> [] \<Longrightarrow>
   foldl (\<lambda>cks word. js_ushr (cks - word) 0) c dat = (c - sum_list dat) mod 2 ^ 32"
proof (induction dat arbitrary: c)
  case Nil
  then show ?case by simp
next
  case (Cons w ws)
  show ?case
  proof (cases "ws = []")
    case True
    then show ?thesis by (simp add: js_ushr_0)
  next
    case False
    have "((c - w) mod 2 ^ 32 - sum_list ws) mod 2 ^ 32 = (c - w - sum_list ws) mod 2 ^ 32"
      by (rule mod_diff_left_eq)
    then show ?thesis using Cons.IH [OF False, of "js_ushr (c - w) 0"]
      by (simp add: js_ushr_0 algebra_simps)
  qed
qed

lemma checksum_A_eq:
  "dat \<noteq> [] \<Longrightarrow> checksum_A idn dat = (0xffffffff - idn - sum_list dat) mod 2 ^ 32"
  by (simp add: checksum_A_def checksum_fold)

lemma getOverlapData_loop_result:
  assumes "getOverlapData_loop bb fixL startL ofs endData = Inr d"
    and "\<forall>w\<in>set endData. 0 \<le> w \<and> w < 2 ^ 32"
  shows "d \<noteq> [] \<and> (\<forall>w\<in>set d. 0 \<le> w \<and> w < 2 ^ 32)"
  using assms
proof (induction bb fixL startL ofs endData rule: getOverlapData_loop.induct)
  case (1 bb fixL startL ofs endData)
  note unf = getOverlapData_loop.simps [of bb fixL startL ofs endData]
  from "1.prems"(1) obtain word
    where r: "readUint32 bb (int (length bb) - 8 - ofs * 8) True = Inr word"
    by (cases "readUint32 bb (int (length bb) - 8 - ofs * 8) True") (simp_all add: unf)
  have w: "0 \<le> word \<and> word < 2 ^ 32" using r by (rule readUint32_range)
  have ws: "\<forall>w\<in>set (endData @ [word]). 0 \<le> w \<and> w < 2 ^ 32"
    using "1.prems"(2) w by simp
  show ?case
  proof (cases "int (length (endData @ [word])) + startL < fixL")
    case True
    then have "getOverlapData_loop bb fixL startL (ofs + 1) (endData @ [word]) = Inr d"
      using "1.prems"(1) r by (simp add: unf)
    then show ?thesis using ws by (rule "1.IH" [OF r True])
  next
    case False
    then have "d = endData @ [word]" using "1.prems"(1) r by (simp add: unf)
    then show ?thesis using ws by simp
  qed
qed

lemma readDataEntry_A_loop_result:
  assumes "readDataEntry_A_loop this wIdx rwP nextBlock fixL ofs dat = Inr d"
    and "\<forall>w\<in>set dat. 0 \<le> w \<and> w < 2 ^ 32"
  shows "d \<noteq> [] \<and> (\<forall>w\<in>set d. 0 \<le> w \<and> w < 2 ^ 32)"
  using assms
proof (induction this wIdx rwP nextBlock fixL ofs dat rule: readDataEntry_A_loop.induct)
  case (1 this wIdx rwP nextBlock fixL ofs dat)
  note unf = readDataEntry_A_loop.simps [of this wIdx rwP nextBlock fixL ofs dat]
  show ?case
  proof (cases "(wIdx - ofs) * 8 = rwP")
    case True
    with "1.prems"(1) obtain nb b fin where "nextBlock = Some nb" "blockData this nb = Some b"
      and g: "getOverlapData (buf b) fixL (int (length dat)) = Inr fin" and d: "d = dat @ fin"
      by (auto simp: unf split: option.splits sum.splits)
    have "fin \<noteq> [] \<and> (\<forall>w\<in>set fin. 0 \<le> w \<and> w < 2 ^ 32)"
      by (rule getOverlapData_loop_result [OF g [unfolded getOverlapData_def]]) simp
    then show ?thesis using d "1.prems"(2) by auto
  next
    case False
    with "1.prems"(1) obtain word
      where r: "readUint32 (dfBuffer this) ((wIdx - ofs) * 8) True = Inr word"
      by (cases "readUint32 (dfBuffer this) ((wIdx - ofs) * 8) True") (simp_all add: unf)
    have w: "0 \<le> word \<and> word < 2 ^ 32" using r by (rule readUint32_range)
    have ws: "\<forall>w\<in>set (dat @ [word]). 0 \<le> w \<and> w < 2 ^ 32"
      using "1.prems"(2) w by simp
    show ?thesis
    proof (cases "int (length (dat @ [word])) < fixL")
      case True
      then have "readDataEntry_A_loop this wIdx rwP nextBlock fixL (ofs + 1) (dat @ [word]) = Inr d"
        using "1.prems"(1) r False by (simp add: unf)
      then show ?thesis using ws by (rule "1.IH" [OF False r True])
    next
      case c: False
      then have "d = dat @ [word]" using "1.prems"(1) r False by (simp add: unf)
      then show ?thesis using ws by simp
    qed
  qed
qed

lemma getOverlapData_loop_words:
  assumes "length endData = k" "8 * (k + r + 1) \<le> length bb"
    and "(r = 0 \<and> fixL - startL \<le> int k + 1) \<or> fixL - startL = int (k + r + 1)"
  shows "getOverlapData_loop bb fixL startL (int k) endData =
     Inr (endData @ map (\<lambda>j. le32 bb (length bb - 8 - 8 * j)) [k..<k + r + 1])"
  using assms
proof (induction r arbitrary: k endData)
  case 0
  have a: "int (length bb) - 8 - int k * 8 = int (length bb - 8 - 8 * k)"
    using "0.prems"(2) by simp
  have r: "readUint32 bb (int (length bb) - 8 - int k * 8) True = Inr (le32 bb (length bb - 8 - 8 * k))"
    unfolding a using "0.prems"(2) by (intro readUint32_le32_nat) simp
  have c: "\<not> int (length (endData @ [le32 bb (length bb - 8 - 8 * k)])) + startL < fixL"
    using "0.prems"(1,3) by auto
  show ?case
    by (subst getOverlapData_loop.simps) (simp only: r c sum.case if_False, simp)
next
  case (Suc r)
  have a: "int (length bb) - 8 - int k * 8 = int (length bb - 8 - 8 * k)"
    using Suc.prems(2) by simp
  have r: "readUint32 bb (int (length bb) - 8 - int k * 8) True = Inr (le32 bb (length bb - 8 - 8 * k))"
    unfolding a using Suc.prems(2) by (intro readUint32_le32_nat) simp
  let ?e = "endData @ [le32 bb (length bb - 8 - 8 * k)]"
  have c: "int (length ?e) + startL < fixL"
    using Suc.prems(1,3) by auto
  have l: "length ?e = k + 1" using Suc.prems(1) by simp
  have g: "8 * ((k + 1) + r + 1) \<le> length bb" using Suc.prems(2) by simp
  have h: "(r = 0 \<and> fixL - startL \<le> int (k + 1) + 1) \<or> fixL - startL = int ((k + 1) + r + 1)"
    using Suc.prems(3) by simp
  have u: "[k..<k + Suc r + 1] = k # [k + 1..<(k + 1) + r + 1]"
    by (simp add: upt_conv_Cons)
  have i: "int k + 1 = int (k + 1)" by simp
  show ?case
    by (subst getOverlapData_loop.simps)
       (simp only: r c sum.case if_True i Suc.IH [OF l g h] u, simp)
qed

lemma getOverlapData_words:
  assumes "8 * nat (max 1 (fixL - startL)) \<le> length bb"
  shows "getOverlapData bb fixL startL = Inr (overlapWords bb (nat (max 1 (fixL - startL))))"
proof -
  define r where "r = nat (max 1 (fixL - startL)) - 1"
  have n: "nat (max 1 (fixL - startL)) = 0 + r + 1" by (simp add: r_def)
  have "(r = 0 \<and> fixL - startL \<le> int 0 + 1) \<or> fixL - startL = int (0 + r + 1)"
    by (auto simp: r_def)
  from getOverlapData_loop_words [of "[]" 0 r bb fixL startL, OF _ _ this] assms
  show ?thesis
    unfolding n by (simp add: getOverlapData_def overlapWords_def)
qed

lemma inBlock_walk:
  assumes walk: "\<forall>j<k. (wIdx - int j) * 8 \<noteq> rwP \<and> 0 \<le> (wIdx - int j) * 8
                   \<and> (wIdx - int j) * 8 + 4 \<le> int (length (dfBuffer this))"
    and short: "int k < fixL \<or> k = 0"
  shows "i \<le> k \<Longrightarrow> length dat = i \<Longrightarrow>
    readDataEntry_A_loop this wIdx rwP nextBlock fixL (int i) dat =
    readDataEntry_A_loop this wIdx rwP nextBlock fixL (int k)
      (dat @ map (\<lambda>j. le32 (dfBuffer this) (nat ((wIdx - int j) * 8))) [i..<k])"
proof (induction "k - i" arbitrary: i dat)
  case 0
  then show ?case by simp
next
  case (Suc d)
  then have ik: "i < k" "d = k - (i + 1)" "i + 1 \<le> k" by simp_all
  let ?w = "le32 (dfBuffer this) (nat ((wIdx - int i) * 8))"
  have ne: "(wIdx - int i) * 8 \<noteq> rwP" using walk ik(1) by blast
  have r: "readUint32 (dfBuffer this) ((wIdx - int i) * 8) True = Inr ?w"
    using walk ik(1) by (intro readUint32_le32) auto
  have c: "int (length (dat @ [?w])) < fixL" using short ik(1) Suc.prems(2) by auto
  have l: "length (dat @ [?w]) = i + 1" using Suc.prems(2) by simp
  have u: "[i..<k] = i # [i + 1..<k]" using ik(1) by (simp add: upt_conv_Cons)
  have s: "int i + 1 = int (i + 1)" by simp
  show ?case
    by (subst readDataEntry_A_loop.simps)
       (simp only: ne r c if_False if_True sum.case s Suc(1) [OF ik(2,3) l] u, simp)
qed

lemma storeSlot_A_error:
  assumes "readUint32 (buf b) (int (i * 0x10 + 0x08)) True = Inr cksRef"
    and "readDataEntry_A this (js_shr word 16) (js_and word 0xffff) cksRef (rwp b) nextBlock = Inl e"
  shows "storeSlot_A this block blockId nextBlock b i word eep = Inr eep"
  using assms by (simp add: storeSlot_A_def Let_def)

lemma populateBlockData_A_loop_step:
  assumes "word \<noteq> REF_END_FLAG"
    and "storeSlot_A this block blockId nextBlock b i word eep = Inr eep'"
  shows "populateBlockData_A_loop this block blockId nextBlock b i word eep =
     (case readUint32 (buf b) (int ((i + 1) * 0x10)) True of
        Inl e \<Rightarrow> Inl e
      | Inr word' \<Rightarrow>
          if rwp b \<noteq> 0 \<and> int ((i + 1) * 0x10 + block * blockSize this) \<ge> rwp b then Inr eep'
          else populateBlockData_A_loop this block blockId nextBlock b (i + 1) word' eep')"
  using assms by (subst populateBlockData_A_loop.simps) simp

lemma readDataEntry_A_checked:
  assumes "readUint32 (dfBuffer this) (wIdx * 8) True = Inr first"
    and "readDataEntry_A_loop this wIdx rwP nextBlock (ceil_div4 (js_and first 0xffff)) 0 [] = Inr dat"
  shows "readDataEntry_A this wIdx idn cksRef rwP nextBlock =
     (if checksum_A idn dat = cksRef then Inr dat else Inl InvalidChecksum)"
  using assms by (simp add: readDataEntry_A_def Let_def)

lemma readDataEntry_A_failed:
  assumes "readUint32 (dfBuffer this) (wIdx * 8) True = Inr first"
    and "readDataEntry_A_loop this wIdx rwP nextBlock (ceil_div4 (js_and first 0xffff)) 0 [] = Inl e"
  shows "readDataEntry_A this wIdx idn cksRef rwP nextBlock = Inl e"
  using assms by (simp add: readDataEntry_A_def Let_def)

text \<open>
  C3, as the code has it.  Family A: when the words \<open>dat\<close> of the record behind a
  reference slot have been accumulated, the computed checksum is \<open>0xFFFFFFFF - id\<close> minus
  every accumulated word, modulo \<open>2 ^ 32\<close>, and the record is returned if and only if it
  equals the slot's checksum word.  On a mismatch the slot stores nothing: the map of
  records is left as it was before the slot (an id stays absent only if no other slot
  of the same id decoded) and the walk goes on with the next slot as after any slot.
\<close>

theorem checksum_mismatch_skips_slot:
  assumes "readUint32 (dfBuffer this) (js_shr word 16 * 8) True = Inr first"
    and "readDataEntry_A_loop this (js_shr word 16) (rwp b) nextBlock
           (ceil_div4 (js_and first 0xffff)) 0 [] = Inr dat"
    and "readUint32 (buf b) (int (i * 0x10 + 0x08)) True = Inr cksRef"
  shows "checksum_A (js_and word 0xffff) dat
           = (0xffffffff - js_and word 0xffff - sum_list dat) mod 2 ^ 32
     \<and> readDataEntry_A this (js_shr word 16) (js_and word 0xffff) cksRef (rwp b) nextBlock
           = (if checksum_A (js_and word 0xffff) dat = cksRef then Inr dat else Inl InvalidChecksum)
     \<and> (checksum_A (js_and word 0xffff) dat \<noteq> cksRef \<longrightarrow>
           storeSlot_A this block blockId nextBlock b i word eep = Inr eep
           \<and> (word \<noteq> REF_END_FLAG \<longrightarrow>
                populateBlockData_A_loop this block blockId nextBlock b i word eep =
                  (case readUint32 (buf b) (int ((i + 1) * 0x10)) True of
                     Inl e \<Rightarrow> Inl e
                   | Inr word' \<Rightarrow>
                       if rwp b \<noteq> 0 \<and> int ((i + 1) * 0x10 + block * blockSize this) \<ge> rwp b
                       then Inr eep
                       else populateBlockData_A_loop this block blockId nextBlock b (i + 1) word' eep)))"
proof -
  have ne: "dat \<noteq> []"
    using readDataEntry_A_loop_result [OF assms(2)] by simp
  have c: "checksum_A (js_and word 0xffff) dat
           = (0xffffffff - js_and word 0xffff - sum_list dat) mod 2 ^ 32"
    using ne by (rule checksum_A_eq)
  have r: "readDataEntry_A this (js_shr word 16) (js_and word 0xffff) cksRef (rwp b) nextBlock
           = (if checksum_A (js_and word 0xffff) dat = cksRef then Inr dat else Inl InvalidChecksum)"
    using assms(1,2) by (rule readDataEntry_A_checked)
  have s: "storeSlot_A this block blockId nextBlock b i word eep = Inr eep"
    if "checksum_A (js_and word 0xffff) dat \<noteq> cksRef"
    using that r by (intro storeSlot_A_error [OF assms(3)]) simp
  show ?thesis
    using c r s populateBlockData_A_loop_step [of word this block blockId nextBlock b i eep eep]
    by blast
qed

text \<open>
  C4, as the code has it.  Family A: when the backward walk has read \<open>k\<close> words inside
  the image and then stands on the block's \<open>rwp\<close> before the record is complete, then
  with a successor block the accumulated words are the \<open>k\<close> words of the image followed
  by the missing words read backward from the last 8-byte cell of the successor, and
  the record is these words if their checksum is the slot's reference word; with
  no successor the record fails with the missing-block error, which the slot catches:
  the map of records is left as it was before the slot (an id stays absent only if no
  other slot of the same id decoded) and the walk goes on with the next slot.
\<close>

theorem overlap_or_missing_successor:
  assumes walk: "\<forall>j<k. (js_shr word 16 - int j) * 8 \<noteq> rwp b \<and> 0 \<le> (js_shr word 16 - int j) * 8
                   \<and> (js_shr word 16 - int j) * 8 + 4 \<le> int (length (dfBuffer this))"
    and hit: "(js_shr word 16 - int k) * 8 = rwp b"
    and first: "readUint32 (dfBuffer this) (js_shr word 16 * 8) True = Inr first"
    and short: "int k < ceil_div4 (js_and first 0xffff) \<or> k = 0"
    and ref: "readUint32 (buf b) (int (i * 0x10 + 0x08)) True = Inr cksRef"
  shows "(\<forall>nb s. nextBlock = Some nb \<and> blockData this nb = Some s
            \<and> 8 * nat (max 1 (ceil_div4 (js_and first 0xffff) - int k)) \<le> length (buf s) \<longrightarrow>
          readDataEntry_A_loop this (js_shr word 16) (rwp b) nextBlock
              (ceil_div4 (js_and first 0xffff)) 0 []
            = Inr (inBlockWords (dfBuffer this) (js_shr word 16) k
                   @ overlapWords (buf s) (nat (max 1 (ceil_div4 (js_and first 0xffff) - int k))))
          \<and> readDataEntry_A this (js_shr word 16) (js_and word 0xffff) cksRef (rwp b) nextBlock
            = (if checksum_A (js_and word 0xffff)
                    (inBlockWords (dfBuffer this) (js_shr word 16) k
                     @ overlapWords (buf s) (nat (max 1 (ceil_div4 (js_and first 0xffff) - int k))))
                  = cksRef
               then Inr (inBlockWords (dfBuffer this) (js_shr word 16) k
                     @ overlapWords (buf s) (nat (max 1 (ceil_div4 (js_and first 0xffff) - int k))))
               else Inl InvalidChecksum))
     \<and> (nextBlock = None \<longrightarrow>
          readDataEntry_A this (js_shr word 16) (js_and word 0xffff) cksRef (rwp b) nextBlock
            = Inl MissingNextBlock
          \<and> storeSlot_A this block blockId nextBlock b i word eep = Inr eep
          \<and> (word \<noteq> REF_END_FLAG \<longrightarrow>
                populateBlockData_A_loop this block blockId nextBlock b i word eep =
                  (case readUint32 (buf b) (int ((i + 1) * 0x10)) True of
                     Inl e \<Rightarrow> Inl e
                   | Inr word' \<Rightarrow>
                       if rwp b \<noteq> 0 \<and> int ((i + 1) * 0x10 + block * blockSize this) \<ge> rwp b
                       then Inr eep
                       else populateBlockData_A_loop this block blockId nextBlock b (i + 1) word' eep)))"
proof -
  let ?w = "js_shr word 16" and ?fixL = "ceil_div4 (js_and first 0xffff)"
  have w: "readDataEntry_A_loop this ?w (rwp b) nextBlock ?fixL (int 0) [] =
      readDataEntry_A_loop this ?w (rwp b) nextBlock ?fixL (int k)
        ([] @ map (\<lambda>j. le32 (dfBuffer this) (nat ((?w - int j) * 8))) [0..<k])"
    by (rule inBlock_walk [OF walk short]) simp_all
  have A: "readDataEntry_A_loop this ?w (rwp b) nextBlock ?fixL 0 []
      = Inr (inBlockWords (dfBuffer this) ?w k @ overlapWords (buf s) (nat (max 1 (?fixL - int k))))
     \<and> readDataEntry_A this ?w (js_and word 0xffff) cksRef (rwp b) nextBlock
      = (if checksum_A (js_and word 0xffff)
              (inBlockWords (dfBuffer this) ?w k @ overlapWords (buf s) (nat (max 1 (?fixL - int k))))
            = cksRef
         then Inr (inBlockWords (dfBuffer this) ?w k @ overlapWords (buf s) (nat (max 1 (?fixL - int k))))
         else Inl InvalidChecksum)"
    if a: "nextBlock = Some nb \<and> blockData this nb = Some s
            \<and> 8 * nat (max 1 (?fixL - int k)) \<le> length (buf s)" for nb s
  proof -
    have l: "int (length (inBlockWords (dfBuffer this) ?w k)) = int k"
      by (simp add: inBlockWords_def)
    have "getOverlapData (buf s) ?fixL (int k)
        = Inr (overlapWords (buf s) (nat (max 1 (?fixL - int k))))"
      using a by (intro getOverlapData_words) simp
    then have "readDataEntry_A_loop this ?w (rwp b) nextBlock ?fixL (int k)
        (inBlockWords (dfBuffer this) ?w k)
      = Inr (inBlockWords (dfBuffer this) ?w k @ overlapWords (buf s) (nat (max 1 (?fixL - int k))))"
      using a hit by (subst readDataEntry_A_loop.simps) (simp add: l)
    then have L: "readDataEntry_A_loop this ?w (rwp b) nextBlock ?fixL 0 []
      = Inr (inBlockWords (dfBuffer this) ?w k @ overlapWords (buf s) (nat (max 1 (?fixL - int k))))"
      using w by (simp add: inBlockWords_def)
    from readDataEntry_A_checked [OF first L] L show ?thesis by (rule conjI [rotated])
  qed
  have B: "readDataEntry_A this ?w (js_and word 0xffff) cksRef (rwp b) nextBlock = Inl MissingNextBlock
      \<and> storeSlot_A this block blockId nextBlock b i word eep = Inr eep
      \<and> (word \<noteq> REF_END_FLAG \<longrightarrow>
                populateBlockData_A_loop this block blockId nextBlock b i word eep =
                  (case readUint32 (buf b) (int ((i + 1) * 0x10)) True of
                     Inl e \<Rightarrow> Inl e
                   | Inr word' \<Rightarrow>
                       if rwp b \<noteq> 0 \<and> int ((i + 1) * 0x10 + block * blockSize this) \<ge> rwp b
                       then Inr eep
                       else populateBlockData_A_loop this block blockId nextBlock b (i + 1) word' eep))"
    if n: "nextBlock = None"
  proof -
    have "readDataEntry_A_loop this ?w (rwp b) nextBlock ?fixL (int k)
          (inBlockWords (dfBuffer this) ?w k) = Inl MissingNextBlock"
      using n hit by (subst readDataEntry_A_loop.simps) simp
    then have "readDataEntry_A_loop this ?w (rwp b) nextBlock ?fixL 0 [] = Inl MissingNextBlock"
      using w by (simp add: inBlockWords_def)
    with first
    have m: "readDataEntry_A this ?w (js_and word 0xffff) cksRef (rwp b) nextBlock = Inl MissingNextBlock"
      by (rule readDataEntry_A_failed)
    have s: "storeSlot_A this block blockId nextBlock b i word eep = Inr eep"
      using ref m by (rule storeSlot_A_error)
    show ?thesis
      using m s populateBlockData_A_loop_step [of word this block blockId nextBlock b i eep eep]
      by blast
  qed
  show ?thesis using A B by blast
qed

lemma imageA_catalog:
  assumes "img = imageA ec rw slots dat" "le24 img 0x30 * 2 < 0x1000"
  shows "getBlocksData_A (instance_of img BLOCK_SIZE_A) = Inr [0 \<mapsto> block_of img]"
proof -
  let ?t = "instance_of img BLOCK_SIZE_A"
  have l: "length img = 0x1000" by (simp add: assms(1) length_imageA)
  have f: "dfBuffer ?t = img" "blockSize ?t = 0x1000" "nBlocks ?t = 1"
    by (simp_all add: instance_of_def l BLOCK_SIZE_A_def)
  have fl: "le32 img 0x10 = 0x55555555" "le32 img 0x18 = 0x55555555" "le32 img 0x20 = 0x55555555"
    by (simp_all add: assms(1) imageA_flags)
  have p1: "length img = blockSize ?t" and p2: "blockSize ?t = BLOCK_SIZE_A"
    by (simp_all add: instance_of_def l BLOCK_SIZE_A_def)
  have v: "isValidBlock_A ?t img = Inr True"
    unfolding isValidBlock_A_spec [OF p1 p2] by (simp add: fl)
  have nn: "0 \<le> le24 img 0x30 * 2"
    using uint_byte_bounds(1) by (simp add: le24_def)
  have "getBlocksData ?t (isValidBlock_A ?t) 0x28 0x30 2 =
     Inr [0 \<mapsto> \<lparr>id_blk = 0, isValid = True, eraseCount = le24 (dfBuffer ?t) (nat 0x28),
                 rwp = le24 (dfBuffer ?t) (nat 0x30) * 2, buf = dfBuffer ?t\<rparr>]"
    using assms(2) nn by (intro single_block_catalog) (simp_all add: f l v)
  then show ?thesis by (simp add: getBlocksData_A_def f block_of_def)
qed

lemma Emu_V850e2_imageA:
  assumes "img = imageA ec rw slots dat" "le24 img 0x30 * 2 < 0x1000"
  shows "Emu_V850e2 img =
     (case populateBlockData_A_loop (scanned_of img) 0 0 None (block_of img) 4 (le32 img 0x40) Map.empty
      of Inl e \<Rightarrow> Inl e | Inr eep \<Rightarrow> Inr ((scanned_of img)\<lparr>eepData := eep\<rparr>))"
proof -
  let ?t = "instance_of img BLOCK_SIZE_A"
  have l: "length img = 0x1000" by (simp add: assms(1) length_imageA)
  have n: "NecEmulator_new img BLOCK_SIZE_A = Inr ?t"
    by (simp add: NecEmulator_new_def instance_of_def l BLOCK_SIZE_A_def)
  have c: "getBlocksData_A ?t = Inr [0 \<mapsto> block_of img]"
    using assms by (rule imageA_catalog)
  have nb: "nBlocks ?t = 1" by (simp add: instance_of_def l BLOCK_SIZE_A_def)
  have a: "getActiveBlocksOrderedList (?t\<lparr>blockData := [0 \<mapsto> block_of img]\<rparr>) = Inr [0]"
    by (simp add: getActiveBlocksOrderedList_def nb block_of_def)
  have s: "?t\<lparr>blockData := [0 \<mapsto> block_of img], activeBlocks := [0]\<rparr> = scanned_of img"
    by (simp add: scanned_of_def)
  have r: "readUint32 (buf (block_of img)) 0x40 True = Inr (le32 img 0x40)"
    using readUint32_le32_nat [of "0x40" img] l by (simp add: block_of_def)
  have p: "populateBlockData_A (scanned_of img) 0 =
     (case populateBlockData_A_loop (scanned_of img) 0 0 None (block_of img) 4 (le32 img 0x40)
             (eepData (scanned_of img))
      of Inl e \<Rightarrow> Inl e | Inr eep \<Rightarrow> Inr ((scanned_of img)\<lparr>eepData := eep\<rparr>))"
    unfolding populateBlockData_A_def
    by (simp add: scanned_of_def instance_of_def r Let_def)
  have e: "eepData (scanned_of img) = Map.empty" by (simp add: scanned_of_def instance_of_def)
  show ?thesis
    by (simp add: Emu_V850e2_def n c a s p e split: sum.splits)
qed

lemma image_c3_words:
  "le32 image_c3 0x40 = 0x01000005" "le32 image_c3 0x48 = 0xFFFFFFF6"
  "le32 image_c3 0x50 = 0x01010005" "le32 image_c3 0x58 = 0"
  "le32 image_c3 0x60 = 0xFFFFFFFF" "le32 image_c3 0x800 = 4" "le32 image_c3 0x808 = 4"
  "le24 image_c3 0x28 = 1" "le24 image_c3 0x30 = 0"
  by (simp_all add: image_c3_def imageA_def le32_def le24_def nth_append)

lemma image_c3_read:
  "a + 4 \<le> 0x1000 \<Longrightarrow> readUint32 image_c3 (int a) True = Inr (le32 image_c3 a)"
  by (rule readUint32_le32_nat) (simp add: image_c3_def length_imageA)

lemma scanned_of_fields:
  "dfBuffer (scanned_of img) = img" "blockSize (scanned_of img) = 0x1000"
  "blockData (scanned_of img) = [0 \<mapsto> block_of img]"
  "buf (block_of img) = img" "rwp (block_of img) = le24 img 0x30 * 2"
  by (simp_all add: scanned_of_def instance_of_def block_of_def BLOCK_SIZE_A_def)

lemma slot_numbers:
  "js_shr 0x01000005 16 = 0x100" "js_and 0x01000005 0xffff = 5"
  "js_shr 0x01010005 16 = 0x101" "js_and 0x01010005 0xffff = 5"
  "js_shr 0x01020005 16 = 0x102" "js_and 0x01020005 0xffff = 5"
  "ceil_div4 (js_and 4 0xffff) = 1" "ceil_div4 (js_and 8 0xffff) = 2"
  by (simp_all add: js_shr_def ToInt32_def js_and_ffff ceil_div4_def)

lemma write_one_word: "writeWords [4] 0 (replicate 4 0) = Inr [4, 0, 0, 0]"
  by (simp add: int32ToWord_def js_and_ff js_and_ffff js_and_ffffff js_ushr_def ToUint32_def
      ToUint8_def buf_copy_def)

lemma image_c3_slot4:
  "storeSlot_A (scanned_of image_c3) 0 0 None (block_of image_c3) 4 0x01000005 eep
     = Inr (eep(5 \<mapsto> record_c3))"
proof -
  let ?t = "scanned_of image_c3" and ?b = "block_of image_c3"
  have r: "readUint32 image_c3 0x48 True = Inr 0xFFFFFFF6" "readUint32 image_c3 0x800 True = Inr 4"
    using image_c3_read [of "0x48"] image_c3_read [of "0x800"] by (simp_all add: image_c3_words)
  have l: "readDataEntry_A_loop ?t 0x100 0 None 1 0 [] = Inr [4]"
    by (subst readDataEntry_A_loop.simps) (simp add: scanned_of_fields r)
  have c: "checksum_A 5 [4] = 0xFFFFFFF6"
    by (simp add: checksum_A_def js_ushr_0)
  have e: "readDataEntry_A ?t 0x100 5 0xFFFFFFF6 0 None = Inr [4]"
    by (simp add: readDataEntry_A_def scanned_of_fields r slot_numbers l c)
  show ?thesis
    by (simp add: storeSlot_A_def Let_def scanned_of_fields image_c3_words r slot_numbers e
        buf_alloc_def write_one_word record_c3_def del: writeWords.simps)
qed

lemma image_c3_slot5_mismatch:
  "readDataEntry_A (scanned_of image_c3) 0x101 5 0 0 None = Inl InvalidChecksum"
proof -
  let ?t = "scanned_of image_c3"
  have r: "readUint32 image_c3 0x808 True = Inr 4"
    using image_c3_read [of "0x808"] by (simp add: image_c3_words)
  have l: "readDataEntry_A_loop ?t 0x101 0 None 1 0 [] = Inr [4]"
    by (subst readDataEntry_A_loop.simps) (simp add: scanned_of_fields r)
  have c: "checksum_A 5 [4] = 0xFFFFFFF6"
    by (simp add: checksum_A_def js_ushr_0)
  show ?thesis
    by (simp add: readDataEntry_A_def scanned_of_fields r slot_numbers l c)
qed

lemma image_c3_slot5:
  "storeSlot_A (scanned_of image_c3) 0 0 None (block_of image_c3) 5 0x01010005 eep = Inr eep"
proof -
  have r: "readUint32 image_c3 0x58 True = Inr 0"
    using image_c3_read [of "0x58"] by (simp add: image_c3_words)
  show ?thesis
    by (rule storeSlot_A_error [where cksRef = 0 and e = InvalidChecksum])
       (simp_all add: scanned_of_fields image_c3_words r slot_numbers image_c3_slot5_mismatch)
qed

lemma image_c3_walk:
  "populateBlockData_A_loop (scanned_of image_c3) 0 0 None (block_of image_c3) 4 0x01000005 Map.empty
     = Inr [5 \<mapsto> record_c3]"
proof -
  let ?t = "scanned_of image_c3" and ?b = "block_of image_c3"
  have r: "readUint32 image_c3 0x50 True = Inr 0x01010005"
    "readUint32 image_c3 0x60 True = Inr 0xFFFFFFFF"
    using image_c3_read [of "0x50"] image_c3_read [of "0x60"] by (simp_all add: image_c3_words)
  have e: "populateBlockData_A_loop ?t 0 0 None ?b 6 0xFFFFFFFF [5 \<mapsto> record_c3]
      = Inr [5 \<mapsto> record_c3]"
    by (subst populateBlockData_A_loop.simps) (simp add: REF_END_FLAG_def)
  have s5: "populateBlockData_A_loop ?t 0 0 None ?b 5 0x01010005 [5 \<mapsto> record_c3]
      = Inr [5 \<mapsto> record_c3]"
    by (subst populateBlockData_A_loop.simps)
       (simp add: REF_END_FLAG_def image_c3_slot5 scanned_of_fields image_c3_words r e)
  show ?thesis
    by (subst populateBlockData_A_loop.simps)
       (simp add: REF_END_FLAG_def image_c3_slot4 scanned_of_fields image_c3_words r s5)
qed

lemma image_c3_result:
  "Emu_V850e2 image_c3 = Inr ((scanned_of image_c3)\<lparr>eepData := [5 \<mapsto> record_c3]\<rparr>)"
proof -
  have "le24 image_c3 0x30 * 2 < 0x1000" by (simp add: image_c3_words)
  from Emu_V850e2_imageA [OF image_c3_def this]
  show ?thesis by (simp add: image_c3_words image_c3_walk)
qed

lemma image_c4_words:
  "le32 image_c4 0x40 = 0x01020005" "le32 image_c4 0x48 = 0xFFFFFFF6"
  "le32 image_c4 0x50 = 0x01010005" "le32 image_c4 0x58 = 0xFFFFFFF2"
  "le32 image_c4 0x60 = 0xFFFFFFFF" "le32 image_c4 0x808 = 8" "le32 image_c4 0x810 = 4"
  "le24 image_c4 0x28 = 1" "le24 image_c4 0x30 = 0x400"
  by (simp_all add: image_c4_def imageA_def le32_def le24_def nth_append)

lemma image_c4_read:
  "a + 4 \<le> 0x1000 \<Longrightarrow> readUint32 image_c4 (int a) True = Inr (le32 image_c4 a)"
  by (rule readUint32_le32_nat) (simp add: image_c4_def length_imageA)

lemma image_c4_slot4:
  "storeSlot_A (scanned_of image_c4) 0 0 None (block_of image_c4) 4 0x01020005 eep
     = Inr (eep(5 \<mapsto> record_c4))"
proof -
  let ?t = "scanned_of image_c4" and ?b = "block_of image_c4"
  have r: "readUint32 image_c4 0x48 True = Inr 0xFFFFFFF6" "readUint32 image_c4 0x810 True = Inr 4"
    using image_c4_read [of "0x48"] image_c4_read [of "0x810"] by (simp_all add: image_c4_words)
  have l: "readDataEntry_A_loop ?t 0x102 0x800 None 1 0 [] = Inr [4]"
    by (subst readDataEntry_A_loop.simps) (simp add: scanned_of_fields r)
  have c: "checksum_A 5 [4] = 0xFFFFFFF6"
    by (simp add: checksum_A_def js_ushr_0)
  have e: "readDataEntry_A ?t 0x102 5 0xFFFFFFF6 0x800 None = Inr [4]"
    by (simp add: readDataEntry_A_def scanned_of_fields r slot_numbers l c)
  show ?thesis
    by (simp add: storeSlot_A_def Let_def scanned_of_fields image_c4_words r slot_numbers e
        buf_alloc_def write_one_word record_c4_def del: writeWords.simps)
qed

lemma image_c4_slot5_missing:
  "readDataEntry_A (scanned_of image_c4) 0x101 5 0xFFFFFFF2 0x800 None = Inl MissingNextBlock"
proof -
  let ?t = "scanned_of image_c4"
  have r: "readUint32 image_c4 0x808 True = Inr 8"
    using image_c4_read [of "0x808"] by (simp add: image_c4_words)
  have l1: "readDataEntry_A_loop ?t 0x101 0x800 None 2 1 [8] = Inl MissingNextBlock"
    by (subst readDataEntry_A_loop.simps) simp
  have l: "readDataEntry_A_loop ?t 0x101 0x800 None 2 0 [] = Inl MissingNextBlock"
    by (subst readDataEntry_A_loop.simps) (simp add: scanned_of_fields r l1)
  show ?thesis
    by (simp add: readDataEntry_A_def scanned_of_fields r slot_numbers l)
qed

lemma image_c4_slot5:
  "storeSlot_A (scanned_of image_c4) 0 0 None (block_of image_c4) 5 0x01010005 eep = Inr eep"
proof -
  have r: "readUint32 image_c4 0x58 True = Inr 0xFFFFFFF2"
    using image_c4_read [of "0x58"] by (simp add: image_c4_words)
  show ?thesis
    by (rule storeSlot_A_error [where cksRef = "0xFFFFFFF2" and e = MissingNextBlock])
       (simp_all add: scanned_of_fields image_c4_words r slot_numbers image_c4_slot5_missing)
qed

lemma image_c4_walk:
  "populateBlockData_A_loop (scanned_of image_c4) 0 0 None (block_of image_c4) 4 0x01020005 Map.empty
     = Inr [5 \<mapsto> record_c4]"
proof -
  let ?t = "scanned_of image_c4" and ?b = "block_of image_c4"
  have r: "readUint32 image_c4 0x50 True = Inr 0x01010005"
    "readUint32 image_c4 0x60 True = Inr 0xFFFFFFFF"
    using image_c4_read [of "0x50"] image_c4_read [of "0x60"] by (simp_all add: image_c4_words)
  have e: "populateBlockData_A_loop ?t 0 0 None ?b 6 0xFFFFFFFF [5 \<mapsto> record_c4]
      = Inr [5 \<mapsto> record_c4]"
    by (subst populateBlockData_A_loop.simps) (simp add: REF_END_FLAG_def)
  have s5: "populateBlockData_A_loop ?t 0 0 None ?b 5 0x01010005 [5 \<mapsto> record_c4]
      = Inr [5 \<mapsto> record_c4]"
    by (subst populateBlockData_A_loop.simps)
       (simp add: REF_END_FLAG_def image_c4_slot5 scanned_of_fields image_c4_words r e)
  show ?thesis
    by (subst populateBlockData_A_loop.simps)
       (simp add: REF_END_FLAG_def image_c4_slot4 scanned_of_fields image_c4_words r s5)
qed

lemma image_c4_result:
  "Emu_V850e2 image_c4 = Inr ((scanned_of image_c4)\<lparr>eepData := [5 \<mapsto> record_c4]\<rparr>)"
proof -
  have "le24 image_c4 0x30 * 2 < 0x1000" by (simp add: image_c4_words)
  from Emu_V850e2_imageA [OF image_c4_def this]
  show ?thesis by (simp add: image_c4_words image_c4_walk)
qed

text \<open>
  C3 as stated fails: in \<open>image_c3\<close> the slot at 0x50 carries id 5 and a checksum word
  that mismatches, and id 5 is in the result, with the record of the older slot.
\<close>

theorem checksum_mismatch_counterexample:
  "Emu_V850e2 image_c3 = Inr ((scanned_of image_c3)\<lparr>eepData := [5 \<mapsto> record_c3]\<rparr>)
   \<and> le32 image_c3 0x50 = 0x01010005 \<and> js_and 0x01010005 0xffff = 5
   \<and> js_shr 0x01010005 16 = 0x101 \<and> le32 image_c3 0x58 = 0
   \<and> rwp (block_of image_c3) = 0
   \<and> readDataEntry_A (scanned_of image_c3) 0x101 5 0 0 None = Inl InvalidChecksum"
  by (simp add: image_c3_result image_c3_words slot_numbers scanned_of_fields
      image_c3_slot5_mismatch)

theorem checksum_mismatch_skips_slot_witness:
  "checksum_A 5 [4] = 0xFFFFFFF6
   \<and> readDataEntry_A (scanned_of image_c3) 0x101 5 0 0 None = Inl InvalidChecksum
   \<and> storeSlot_A (scanned_of image_c3) 0 0 None (block_of image_c3) 5 0x01010005 [5 \<mapsto> record_c3]
       = Inr [5 \<mapsto> record_c3]
   \<and> populateBlockData_A_loop (scanned_of image_c3) 0 0 None (block_of image_c3) 5 0x01010005
         [5 \<mapsto> record_c3]
       = Inr [5 \<mapsto> record_c3]"
proof -
  let ?t = "scanned_of image_c3" and ?b = "block_of image_c3"
  have r: "readUint32 image_c3 0x808 True = Inr 4" "readUint32 image_c3 0x58 True = Inr 0"
    "readUint32 image_c3 0x60 True = Inr 0xFFFFFFFF"
    using image_c3_read [of "0x808"] image_c3_read [of "0x58"] image_c3_read [of "0x60"]
    by (simp_all add: image_c3_words)
  have a1: "readUint32 (dfBuffer ?t) (js_shr 0x01010005 16 * 8) True = Inr 4"
    by (simp add: scanned_of_fields slot_numbers r)
  have a2: "readDataEntry_A_loop ?t (js_shr 0x01010005 16) (rwp ?b) None
           (ceil_div4 (js_and 4 0xffff)) 0 [] = Inr [4]"
    unfolding slot_numbers
    by (subst readDataEntry_A_loop.simps) (simp add: scanned_of_fields r image_c3_words)
  have a3: "readUint32 (buf ?b) (int (5 * 0x10 + 0x08)) True = Inr 0"
    by (simp add: scanned_of_fields r)
  have e: "populateBlockData_A_loop ?t 0 0 None ?b 6 0xFFFFFFFF [5 \<mapsto> record_c3]
      = Inr [5 \<mapsto> record_c3]"
    by (subst populateBlockData_A_loop.simps) (simp add: REF_END_FLAG_def)
  have c: "checksum_A 5 [4] = 0xFFFFFFF6"
    by (simp add: checksum_A_def js_ushr_0)
  from checksum_mismatch_skips_slot [OF a1 a2 a3, of 0 0 "[5 \<mapsto> record_c3]"]
  show ?thesis
    by (simp add: slot_numbers c scanned_of_fields image_c3_words r e REF_END_FLAG_def)
qed

text \<open>
  C4 as stated fails: in \<open>image_c4\<close> the record of the slot at 0x50, of id 5, reaches the
  write pointer of the only block, which has no successor, and id 5 is in the result,
  with the record of the older slot.
\<close>

theorem missing_successor_counterexample:
  "Emu_V850e2 image_c4 = Inr ((scanned_of image_c4)\<lparr>eepData := [5 \<mapsto> record_c4]\<rparr>)
   \<and> le32 image_c4 0x50 = 0x01010005 \<and> js_and 0x01010005 0xffff = 5
   \<and> js_shr 0x01010005 16 = 0x101 \<and> le32 image_c4 0x58 = 0xFFFFFFF2
   \<and> rwp (block_of image_c4) = 0x800
   \<and> readDataEntry_A (scanned_of image_c4) 0x101 5 0xFFFFFFF2 0x800 None = Inl MissingNextBlock"
  by (simp add: image_c4_result image_c4_words slot_numbers scanned_of_fields
      image_c4_slot5_missing)

section \<open>Family A: a record across two blocks\<close>

lemma getBlocksData_explicit:
  assumes geo: "length (dfBuffer this) = nBlocks this * blockSize this"
    and tot: "\<forall>i<nBlocks this. \<exists>v. valid (window (dfBuffer this) (blockSize this) i) = Inr v"
    and off: "0 \<le> ecOff" "ecOff + 3 \<le> int (blockSize this)"
             "0 \<le> rwpOff" "rwpOff + 3 \<le> int (blockSize this)"
    and adr: "\<forall>i<nBlocks this. validWindow valid (dfBuffer this) (blockSize this) i \<longrightarrow>
                nat (storedRwp rwpOff scale (dfBuffer this) (blockSize this) i div int (blockSize this))
                  < nBlocks this"
  shows "getBlocksData this valid ecOff rwpOff scale =
     Inr (\<lambda>k. if k < nBlocks this
               then Some (case lastRwp (blockSize this)
                                 (map (storedRwp rwpOff scale (dfBuffer this) (blockSize this))
                                    (filter (validWindow valid (dfBuffer this) (blockSize this))
                                       [0..<nBlocks this])) k of
                            None \<Rightarrow> rawBlock valid ecOff (dfBuffer this) (blockSize this) k
                          | Some r \<Rightarrow> (rawBlock valid ecOff (dfBuffer this) (blockSize this) k)\<lparr>rwp := r\<rparr>)
               else None)"
proof -
  let ?df = "dfBuffer this" and ?bs = "blockSize this" and ?n = "nBlocks this"
  let ?vw = "validWindow valid ?df ?bs" and ?sr = "storedRwp rwpOff scale ?df ?bs"
  let ?raw = "\<lambda>k. if k \<in> set [0..<?n] then Some (rawBlock valid ecOff ?df ?bs k) else Map.empty k"
  let ?rwps = "[] @ map ?sr (filter ?vw [0..<?n])"
  have g: "\<forall>i\<in>set [0..<?n]. (i + 1) * ?bs \<le> length ?df"
  proof
    fix j assume "j \<in> set [0..<?n]"
    then have "j + 1 \<le> ?n" by simp
    then have "(j + 1) * ?bs \<le> ?n * ?bs" by (rule mult_le_mono1)
    then show "(j + 1) * ?bs \<le> length ?df" using geo by simp
  qed
  have t: "\<forall>i\<in>set [0..<?n]. \<exists>v. valid (window ?df ?bs i) = Inr v" using tot by simp
  have cat: "catalogBlocks this valid ecOff rwpOff scale [0..<?n] Map.empty [] = Inr (?raw, ?rwps)"
    by (rule catalogBlocks_spec [OF g t off])
  from getBlocksData_succeeds [OF geo tot off adr]
  obtain bd where bd: "getBlocksData this valid ecOff rwpOff scale = Inr bd" by blast
  then have asg: "assignRwps ?bs ?raw ?rwps = Inr bd"
    using cat by (simp add: getBlocksData_def)
  have "bd k = (if k < ?n then Some (case lastRwp ?bs (map ?sr (filter ?vw [0..<?n])) k of
                            None \<Rightarrow> rawBlock valid ecOff ?df ?bs k
                          | Some r \<Rightarrow> (rawBlock valid ecOff ?df ?bs k)\<lparr>rwp := r\<rparr>)
               else None)" for k
    using assignRwps_Inr [OF asg] by simp
  then show ?thesis using bd by (simp add: fun_eq_iff)
qed

lemma image_two_parts:
  "length image_first = 0x1000" "length image_second = 0x1000" "length image_two = 0x2000"
  "window image_two 0x1000 0 = image_first" "window image_two 0x1000 (Suc 0) = image_second"
  by (simp_all add: image_two_def image_first_def image_second_def length_imageA window_def)

lemma image_two_header:
  "le24 image_first 0x28 = 1" "le24 image_first 0x30 = 0"
  "le24 image_second 0x28 = 2" "le24 image_second 0x30 = 0x400"
  by (simp_all add: image_first_def image_second_def imageA_def le24_def nth_append)

lemma image_two_catalog:
  "getBlocksData_A (instance_of image_two BLOCK_SIZE_A) = Inr catalog_two"
proof -
  let ?t = "instance_of image_two BLOCK_SIZE_A"
  have f: "dfBuffer ?t = image_two" "blockSize ?t = 0x1000" "nBlocks ?t = 2"
    by (simp_all add: instance_of_def image_two_parts BLOCK_SIZE_A_def)
  have p2: "blockSize ?t = BLOCK_SIZE_A" by (simp add: instance_of_def)
  have v: "isValidBlock_A ?t image_first = Inr True" "isValidBlock_A ?t image_second = Inr True"
    using isValidBlock_A_spec [of image_first ?t, OF _ p2]
      isValidBlock_A_spec [of image_second ?t, OF _ p2]
    by (simp_all add: f image_two_parts) (simp_all add: image_first_def image_second_def imageA_flags)
  have w: "\<And>i. i < 2 \<Longrightarrow> window image_two 0x1000 i = (if i = 0 then image_first else image_second)"
    using image_two_parts(4,5) by (auto simp: less_2_cases_iff)
  have vw: "\<And>i. i < 2 \<Longrightarrow> validWindow (isValidBlock_A ?t) image_two 0x1000 i"
    by (simp add: validWindow_def w v)
  have u: "[0..<2] = [0, 1::nat]" by (simp add: upt_rec)
  have fl: "filter (validWindow (isValidBlock_A ?t) image_two 0x1000) [0..<2] = [0, 1]"
    unfolding u using vw [of 0] vw [of 1] by simp
  have sr: "storedRwp 0x30 2 image_two 0x1000 0 = 0" "storedRwp 0x30 2 image_two 0x1000 (Suc 0) = 0x800"
    by (simp_all add: storedRwp_def image_two_parts image_two_header)
  have tot: "\<forall>i<nBlocks ?t. \<exists>v. isValidBlock_A ?t (window (dfBuffer ?t) (blockSize ?t) i) = Inr v"
    using vw by (auto simp: f validWindow_def)
  have adr: "\<forall>i<nBlocks ?t. validWindow (isValidBlock_A ?t) (dfBuffer ?t) (blockSize ?t) i \<longrightarrow>
                nat (storedRwp 0x30 2 (dfBuffer ?t) (blockSize ?t) i div int (blockSize ?t))
                  < nBlocks ?t"
    using sr by (auto simp: f less_2_cases_iff)
  have lr: "lastRwp 0x1000 [0, 0x800] 0 = Some 0x800" "lastRwp 0x1000 [0, 0x800] (Suc 0) = None"
    by (simp_all add: lastRwp_def)
  have rb: "rawBlock (isValidBlock_A ?t) 0x28 image_two 0x1000 0
      = \<lparr>id_blk = 0, isValid = True, eraseCount = 1, rwp = 0, buf = image_first\<rparr>"
    "rawBlock (isValidBlock_A ?t) 0x28 image_two 0x1000 (Suc 0)
      = \<lparr>id_blk = 1, isValid = True, eraseCount = 2, rwp = 0, buf = image_second\<rparr>"
    using vw [of 0] vw [of 1] by (simp_all add: rawBlock_def image_two_parts image_two_header)
  have geo: "length (dfBuffer ?t) = nBlocks ?t * blockSize ?t"
    by (simp add: f image_two_parts)
  have off: "(0::int) \<le> 0x28" "0x28 + 3 \<le> int (blockSize ?t)"
            "(0::int) \<le> 0x30" "0x30 + 3 \<le> int (blockSize ?t)"
    by (simp_all add: f)
  note ex = getBlocksData_explicit [OF geo tot off adr]
  have "getBlocksData ?t (isValidBlock_A ?t) 0x28 0x30 2 = Inr catalog_two"
    unfolding ex f fl
    by (auto simp: catalog_two_def fun_eq_iff sr lr rb less_2_cases_iff)
  then show ?thesis by (simp add: getBlocksData_A_def)
qed

lemma image_two_words:
  "le32 image_first 0x40 = 0x01010005" "le32 image_first 0x48 = 0xFFFFFFEB"
  "le32 image_first 0x50 = 0xFFFFFFFF" "le32 image_first 0x808 = 8"
  "le32 image_second 0x40 = 0xFFFFFFFF" "le32 image_second 0xff8 = 7"
  by (simp_all add: image_first_def image_second_def imageA_def le32_def nth_append)

lemma image_two_nth: "a < 0x1000 \<Longrightarrow> image_two ! a = image_first ! a"
  by (simp add: image_two_def nth_append image_two_parts)

lemma image_two_le32: "a + 4 \<le> 0x1000 \<Longrightarrow> le32 image_two a = le32 image_first a"
  by (simp add: le32_def image_two_nth)

lemma scanned_two_fields:
  "dfBuffer scanned_two = image_two" "blockSize scanned_two = 0x1000"
  "blockData scanned_two = catalog_two" "activeBlocks scanned_two = [0, 1]"
  "eepData scanned_two = Map.empty"
  by (simp_all add: scanned_two_def instance_of_def BLOCK_SIZE_A_def)

lemma catalog_two_at:
  "catalog_two 0 = Some (block_two 0)" "catalog_two (Suc 0) = Some (block_two (Suc 0))"
  by (simp_all add: catalog_two_def block_two_def)

lemma block_two_fields:
  "buf (block_two 0) = image_first" "rwp (block_two 0) = 0x800"
  "buf (block_two (Suc 0)) = image_second" "rwp (block_two (Suc 0)) = 0"
  by (simp_all add: block_two_def)

lemma write_two_words: "writeWords [8, 7] 0 (replicate 8 0) = Inr [8, 0, 0, 0, 7, 0, 0, 0]"
  by (simp add: int32ToWord_def js_and_ff js_and_ffff js_and_ffffff js_ushr_def ToUint32_def
      ToUint8_def buf_copy_def)

lemma image_two_overlap_walk:
  "readDataEntry_A_loop scanned_two 0x101 0x800 (Some (Suc 0)) 2 0 [] = Inr [8, 7]"
proof -
  have r: "readUint32 image_two 0x808 True = Inr 8"
    using readUint32_le32_nat [of "0x808" image_two]
    by (simp add: image_two_parts image_two_le32 image_two_words)
  have o: "readUint32 image_second 0xff8 True = Inr 7"
    using readUint32_le32_nat [of "0xff8" image_second]
    by (simp add: image_two_parts image_two_words)
  have g: "getOverlapData image_second 2 1 = Inr [7]"
    unfolding getOverlapData_def
    by (subst getOverlapData_loop.simps) (simp add: image_two_parts o)
  have l1: "readDataEntry_A_loop scanned_two 0x101 0x800 (Some (Suc 0)) 2 1 [8] = Inr [8, 7]"
    by (subst readDataEntry_A_loop.simps)
       (simp add: scanned_two_fields catalog_two_at block_two_fields g)
  show ?thesis
    by (subst readDataEntry_A_loop.simps) (simp add: scanned_two_fields r l1)
qed

lemma image_two_slot4:
  "storeSlot_A scanned_two 0 0 (Some (Suc 0)) (block_two 0) 4 0x01010005 eep
     = Inr (eep(5 \<mapsto> record_two))"
proof -
  have r: "readUint32 image_first 0x48 True = Inr 0xFFFFFFEB"
    using readUint32_le32_nat [of "0x48" image_first]
    by (simp add: image_two_parts image_two_words)
  have f: "readUint32 image_two 0x808 True = Inr 8"
    using readUint32_le32_nat [of "0x808" image_two]
    by (simp add: image_two_parts image_two_le32 image_two_words)
  have c: "checksum_A 5 [8, 7] = 0xFFFFFFEB"
    by (simp add: checksum_A_def js_ushr_0)
  have e: "readDataEntry_A scanned_two 0x101 5 0xFFFFFFEB 0x800 (Some (Suc 0)) = Inr [8, 7]"
    by (simp add: readDataEntry_A_def scanned_two_fields f slot_numbers image_two_overlap_walk c)
  show ?thesis
    by (simp add: storeSlot_A_def Let_def scanned_two_fields block_two_fields r slot_numbers e
        buf_alloc_def write_two_words record_two_def del: writeWords.simps)
qed

lemma image_two_result:
  "Emu_V850e2 image_two = Inr (scanned_two\<lparr>eepData := [5 \<mapsto> record_two]\<rparr>)"
proof -
  let ?t = "instance_of image_two BLOCK_SIZE_A"
  have n: "NecEmulator_new image_two BLOCK_SIZE_A = Inr ?t"
    by (simp add: NecEmulator_new_def instance_of_def image_two_parts BLOCK_SIZE_A_def)
  have nb: "nBlocks ?t = 2" by (simp add: instance_of_def image_two_parts BLOCK_SIZE_A_def)
  have u: "[0..<2] = [0, 1::nat]" by (simp add: upt_rec)
  have a: "getActiveBlocksOrderedList (?t\<lparr>blockData := catalog_two\<rparr>) = Inr [0, 1]"
    by (simp add: getActiveBlocksOrderedList_def nb u catalog_two_def)
  have s: "?t\<lparr>blockData := catalog_two, activeBlocks := [0, Suc 0]\<rparr> = scanned_two"
    by (simp add: scanned_two_def)
  have r: "readUint32 image_first 0x40 True = Inr 0x01010005"
    "readUint32 image_first 0x50 True = Inr 0xFFFFFFFF"
    "readUint32 image_second 0x40 True = Inr 0xFFFFFFFF"
    using readUint32_le32_nat [of "0x40" image_first] readUint32_le32_nat [of "0x50" image_first]
      readUint32_le32_nat [of "0x40" image_second]
    by (simp_all add: image_two_parts image_two_words)
  have e0: "populateBlockData_A_loop scanned_two 0 0 (Some (Suc 0)) (block_two 0) 5 0xFFFFFFFF
      [5 \<mapsto> record_two] = Inr [5 \<mapsto> record_two]"
    by (subst populateBlockData_A_loop.simps) (simp add: REF_END_FLAG_def)
  have w0: "populateBlockData_A_loop scanned_two 0 0 (Some (Suc 0)) (block_two 0) 4 0x01010005 Map.empty
      = Inr [5 \<mapsto> record_two]"
    by (subst populateBlockData_A_loop.simps)
       (simp add: REF_END_FLAG_def image_two_slot4 block_two_fields scanned_two_fields r e0)
  have p0: "populateBlockData_A scanned_two 0 = Inr (scanned_two\<lparr>eepData := [5 \<mapsto> record_two]\<rparr>)"
    by (simp add: populateBlockData_A_def Let_def scanned_two_fields catalog_two_at
        block_two_fields r w0)
  let ?s1 = "scanned_two\<lparr>eepData := [5 \<mapsto> record_two]\<rparr>"
  have f1: "activeBlocks ?s1 = [0, 1]" "blockData ?s1 = catalog_two"
    "eepData ?s1 = [5 \<mapsto> record_two]"
    by (simp_all add: scanned_two_fields)
  have w1: "populateBlockData_A_loop ?s1 (Suc 0) (Suc 0) None (block_two (Suc 0)) 4 0xFFFFFFFF [5 \<mapsto> record_two]
      = Inr [5 \<mapsto> record_two]"
    by (subst populateBlockData_A_loop.simps) (simp add: REF_END_FLAG_def)
  have p1: "populateBlockData_A ?s1 (Suc 0) = Inr ?s1"
    unfolding populateBlockData_A_def
    by (simp add: Let_def f1 catalog_two_at block_two_fields r w1)
  show ?thesis
    by (simp add: Emu_V850e2_def n image_two_catalog a s u p0 p1)
qed

theorem overlap_or_missing_successor_witness:
  "readDataEntry_A_loop scanned_two 0x101 0x800 (Some 1) 2 0 []
      = Inr (inBlockWords image_two 0x101 1 @ overlapWords image_second 1)
   \<and> inBlockWords image_two 0x101 1 @ overlapWords image_second 1 = [8, 7]
   \<and> Emu_V850e2 image_two = Inr (scanned_two\<lparr>eepData := [5 \<mapsto> record_two]\<rparr>)
   \<and> readDataEntry_A (scanned_of image_c4) 0x101 5 0xFFFFFFF2 0x800 None = Inl MissingNextBlock
   \<and> storeSlot_A (scanned_of image_c4) 0 0 None (block_of image_c4) 5 0x01010005 [5 \<mapsto> record_c4]
       = Inr [5 \<mapsto> record_c4]
   \<and> populateBlockData_A_loop (scanned_of image_c4) 0 0 None (block_of image_c4) 5 0x01010005
         [5 \<mapsto> record_c4]
       = Inr [5 \<mapsto> record_c4]"
proof -
  let ?t = "scanned_two" and ?b = "block_two 0"
  have r: "readUint32 image_two 0x808 True = Inr 8"
    using readUint32_le32_nat [of "0x808" image_two]
    by (simp add: image_two_parts image_two_le32 image_two_words)
  have c: "readUint32 image_first 0x48 True = Inr 0xFFFFFFEB"
    using readUint32_le32_nat [of "0x48" image_first]
    by (simp add: image_two_parts image_two_words)
  have a1: "\<forall>j<1. (js_shr 0x01010005 16 - int j) * 8 \<noteq> rwp ?b \<and> 0 \<le> (js_shr 0x01010005 16 - int j) * 8
                   \<and> (js_shr 0x01010005 16 - int j) * 8 + 4 \<le> int (length (dfBuffer ?t))"
    by (simp add: slot_numbers block_two_fields scanned_two_fields image_two_parts)
  have a2: "(js_shr 0x01010005 16 - int 1) * 8 = rwp ?b"
    by (simp add: slot_numbers block_two_fields)
  have a3: "readUint32 (dfBuffer ?t) (js_shr 0x01010005 16 * 8) True = Inr 8"
    by (simp add: slot_numbers scanned_two_fields r)
  have a4: "int 1 < ceil_div4 (js_and 8 0xffff) \<or> (1::nat) = 0"
    by (simp add: slot_numbers)
  have a5: "readUint32 (buf ?b) (int (4 * 0x10 + 0x08)) True = Inr 0xFFFFFFEB"
    by (simp add: block_two_fields c)
  have iw: "inBlockWords image_two 0x101 1 = [8]"
    by (simp add: inBlockWords_def image_two_le32 image_two_words)
  have ow: "overlapWords image_second 1 = [7]"
    by (simp add: overlapWords_def image_two_parts image_two_words)
  from overlap_or_missing_successor [OF a1 a2 a3 a4 a5, of "Some 1"]
  have A: "readDataEntry_A_loop scanned_two 0x101 0x800 (Some 1) 2 0 []
      = Inr (inBlockWords image_two 0x101 1 @ overlapWords image_second 1)"
    by (simp add: slot_numbers block_two_fields scanned_two_fields catalog_two_at image_two_parts)
  let ?u = "scanned_of image_c4" and ?c = "block_of image_c4"
  have q: "readUint32 image_c4 0x808 True = Inr 8" "readUint32 image_c4 0x58 True = Inr 0xFFFFFFF2"
    "readUint32 image_c4 0x60 True = Inr 0xFFFFFFFF"
    using image_c4_read [of "0x808"] image_c4_read [of "0x58"] image_c4_read [of "0x60"]
    by (simp_all add: image_c4_words)
  have l4: "length image_c4 = 0x1000" by (simp add: image_c4_def length_imageA)
  have b1: "\<forall>j<1. (js_shr 0x01010005 16 - int j) * 8 \<noteq> rwp ?c \<and> 0 \<le> (js_shr 0x01010005 16 - int j) * 8
                   \<and> (js_shr 0x01010005 16 - int j) * 8 + 4 \<le> int (length (dfBuffer ?u))"
    by (simp add: slot_numbers scanned_of_fields image_c4_words l4)
  have b2: "(js_shr 0x01010005 16 - int 1) * 8 = rwp ?c"
    by (simp add: slot_numbers scanned_of_fields image_c4_words)
  have b3: "readUint32 (dfBuffer ?u) (js_shr 0x01010005 16 * 8) True = Inr 8"
    by (simp add: slot_numbers scanned_of_fields q)
  have b5: "readUint32 (buf ?c) (int (5 * 0x10 + 0x08)) True = Inr 0xFFFFFFF2"
    by (simp add: scanned_of_fields q)
  have e: "populateBlockData_A_loop ?u 0 0 None ?c 6 0xFFFFFFFF [5 \<mapsto> record_c4]
      = Inr [5 \<mapsto> record_c4]"
    by (subst populateBlockData_A_loop.simps) (simp add: REF_END_FLAG_def)
  from overlap_or_missing_successor [OF b1 b2 b3 a4 b5, of None 0 0 "[5 \<mapsto> record_c4]"]
  have B: "readDataEntry_A ?u 0x101 5 0xFFFFFFF2 0x800 None = Inl MissingNextBlock
   \<and> storeSlot_A ?u 0 0 None ?c 5 0x01010005 [5 \<mapsto> record_c4] = Inr [5 \<mapsto> record_c4]
   \<and> populateBlockData_A_loop ?u 0 0 None ?c 5 0x01010005 [5 \<mapsto> record_c4]
       = Inr [5 \<mapsto> record_c4]"
    by (simp add: slot_numbers scanned_of_fields image_c4_words q e REF_END_FLAG_def)
  show ?thesis using A B iw ow image_two_result by simp
qed

section \<open>Family A: the byte buffer of a record\<close>

lemma byte_of_int_eq:
  "x mod 256 = y mod 256 \<Longrightarrow> (word_of_int x :: byte) = word_of_int y"
  by (simp add: word_of_int_eq_iff take_bit_eq_mod)

lemma int32ToWord_le_bytes:
  assumes "0 \<le> w" "w < 2 ^ 32"
  shows "int32ToWord w True = Inr (le_bytes w)"
proof -
  have a: "w \<le> 0xffffffff" using assms by simp
  have b0: "(word_of_int (w mod 2 ^ 8) :: byte) = word_of_int w"
    by (rule byte_of_int_eq) simp
  have "w mod 2 ^ 16 div 2 ^ 8 mod 2 ^ 8 = w div 2 ^ 8 mod 2 ^ 8"
    using div_exp_mod_exp_eq [of w 8 8] div_exp_mod_exp_eq [of "w mod 2 ^ 16" 8 8]
    by (simp add: mod_mod_cancel)
  then have b1: "(word_of_int (w mod 2 ^ 16 div 2 ^ 8) :: byte) = word_of_int (w div 2 ^ 8)"
    by (intro byte_of_int_eq) simp
  have "w mod 2 ^ 24 div 2 ^ 16 mod 2 ^ 8 = w div 2 ^ 16 mod 2 ^ 8"
    using div_exp_mod_exp_eq [of w 16 8] div_exp_mod_exp_eq [of "w mod 2 ^ 24" 16 8]
    by (simp add: mod_mod_cancel)
  then have b2: "(word_of_int (w mod 2 ^ 24 div 2 ^ 16) :: byte) = word_of_int (w div 2 ^ 16)"
    by (intro byte_of_int_eq) simp
  show ?thesis
    using int32ToWord_bytes [OF assms(1) a, of True] b0 b1 b2
    by (simp add: le_bytes_def ToUint8_def)
qed

lemma length_le_bytes: "length (le_bytes w) = 4"
  by (simp add: le_bytes_def)

lemma length_le_serialize: "length (le_serialize ws) = 4 * length ws"
  by (induction ws) (simp_all add: le_serialize_def length_le_bytes)

lemma buf_copy_word:
  assumes "length word = 4" "length pre = 4 * j" "length old = 4"
  shows "buf_copy word (pre @ old @ post) (int j * 4) 0 (int (length word))
           = Inr ((pre @ word) @ post)"
  using assms by (simp add: buf_copy_def Let_def)

lemma writeWords_overwrite:
  assumes "\<forall>w\<in>set ws. 0 \<le> w \<and> w < 2 ^ 32" "length pre = 4 * j" "length old = 4 * length ws"
  shows "writeWords ws (int j) (pre @ old @ post) = Inr (pre @ le_serialize ws @ post)"
  using assms
proof (induction ws arbitrary: j pre old)
  case Nil
  then show ?case by (simp add: le_serialize_def)
next
  case (Cons w ws)
  have e: "int32ToWord w True = Inr (le_bytes w)"
    using Cons.prems(1) by (intro int32ToWord_le_bytes) simp_all
  have o: "pre @ take 4 old @ (drop 4 old @ post) = pre @ old @ post"
    using append_take_drop_id [of 4 old] by (simp only: append_assoc [symmetric])
  have "buf_copy (le_bytes w) (pre @ take 4 old @ (drop 4 old @ post)) (int j * 4) 0
              (int (length (le_bytes w)))
           = Inr ((pre @ le_bytes w) @ (drop 4 old @ post))"
    using length_le_bytes Cons.prems(2) by (rule buf_copy_word) (simp add: Cons.prems(3))
  then have c: "buf_copy (le_bytes w) (pre @ old @ post) (int j * 4) 0 (int (length (le_bytes w)))
           = Inr ((pre @ le_bytes w) @ (drop 4 old @ post))"
    unfolding o .
  have "writeWords ws (int (Suc j)) ((pre @ le_bytes w) @ drop 4 old @ post)
      = Inr ((pre @ le_bytes w) @ le_serialize ws @ post)"
    using Cons.prems by (intro Cons.IH) (simp_all add: length_le_bytes)
  then show ?case
    using e c by (simp add: le_serialize_def add.commute)
qed

lemma writeWords_serialize:
  assumes "\<forall>w\<in>set ws. 0 \<le> w \<and> w < 2 ^ 32"
  shows "writeWords ws 0 (replicate (4 * length ws) 0) = Inr (le_serialize ws)"
  using writeWords_overwrite [OF assms, of "[]" 0 "replicate (4 * length ws) 0" "[]"] by simp

lemma storeSlot_A_serialized:
  assumes s: "storeSlot_A this block blockId nextBlock b i word eep = Inr eep'"
    and inv: "\<forall>k e. eep k = Some e \<longrightarrow>
                dataBuf e = le_serialize (data e) \<and> length_eep e = of_nat (length (data e))"
  shows "\<forall>k e. eep' k = Some e \<longrightarrow>
                dataBuf e = le_serialize (data e) \<and> length_eep e = of_nat (length (data e))"
proof -
  obtain cksRef where c: "readUint32 (buf b) (int (i * 0x10 + 0x08)) True = Inr cksRef"
    using s by (cases "readUint32 (buf b) (int (i * 0x10 + 0x08)) True")
      (simp_all add: storeSlot_A_def Let_def)
  let ?r = "readDataEntry_A this (js_shr word 16) (js_and word 0xffff) cksRef (rwp b) nextBlock"
  show ?thesis
  proof (cases ?r)
    case (Inl e)
    then have "eep' = eep" using s c by (simp add: storeSlot_A_def Let_def)
    then show ?thesis using inv by simp
  next
    case (Inr d)
    show ?thesis
    proof (cases "d = []")
      case True
      then have "eep' = eep" using s c Inr by (simp add: storeSlot_A_def Let_def)
      then show ?thesis using inv by simp
    next
      case False
      obtain first where f: "readUint32 (dfBuffer this) ((js_shr word 16 - 0) * 8) True = Inr first"
        using Inr by (cases "readUint32 (dfBuffer this) ((js_shr word 16 - 0) * 8) True")
          (simp_all add: readDataEntry_A_def)
      have l: "readDataEntry_A_loop this (js_shr word 16) (rwp b) nextBlock
                 (ceil_div4 (js_and first 0xffff)) 0 [] = Inr d"
        using Inr f by (simp add: readDataEntry_A_def Let_def split: sum.splits if_splits)
      have r: "\<forall>w\<in>set d. 0 \<le> w \<and> w < 2 ^ 32"
        using readDataEntry_A_loop_result [OF l] by simp
      have w: "writeWords d 0 (replicate (4 * length d) 0) = Inr (le_serialize d)"
        using r by (rule writeWords_serialize)
      have z: "buf_alloc (int (length d) * 4) = Inr (replicate (4 * length d) 0)"
        by (simp add: buf_alloc_def nat_mult_distrib mult.commute)
      have "eep' = eep(js_and word 0xffff \<mapsto>
               \<lparr>id_eep = js_and word 0xffff, widx = js_shr word 16,
                widx_abs = js_shr word 16 + int (blockSize this * blockId),
                length_eep = of_nat (length d), data = d,
                dataBuf = le_serialize d, addr = int (i * 0x10 + blockSize this * block)\<rparr>)"
        using s c Inr False w z by (simp add: storeSlot_A_def Let_def)
      then show ?thesis using inv by simp
    qed
  qed
qed

lemma populateBlockData_A_loop_serialized:
  assumes "populateBlockData_A_loop this block blockId nextBlock b i word eep = Inr eep'"
    and "\<forall>k e. eep k = Some e \<longrightarrow>
                dataBuf e = le_serialize (data e) \<and> length_eep e = of_nat (length (data e))"
  shows "\<forall>k e. eep' k = Some e \<longrightarrow>
                dataBuf e = le_serialize (data e) \<and> length_eep e = of_nat (length (data e))"
  using assms
proof (induction this block blockId nextBlock b i word eep
       rule: populateBlockData_A_loop.induct)
  case (1 this block blockId nextBlock b i word eep)
  note unf = populateBlockData_A_loop.simps [of this block blockId nextBlock b i word eep]
  show ?case
  proof (cases "word = REF_END_FLAG")
    case True
    then have "eep' = eep" using "1.prems"(1) unfolding unf by simp
    then show ?thesis using "1.prems"(2) by simp
  next
    case False
    obtain eep1 where s: "storeSlot_A this block blockId nextBlock b i word eep = Inr eep1"
      using "1.prems"(1) False
      by (cases "storeSlot_A this block blockId nextBlock b i word eep") (simp_all add: unf)
    obtain word' where r: "readUint32 (buf b) (int ((i + 1) * 0x10)) True = Inr word'"
      using "1.prems"(1) False s
      by (cases "readUint32 (buf b) (int ((i + 1) * 0x10)) True") (simp_all add: unf)
    have i1: "\<forall>k e. eep1 k = Some e \<longrightarrow>
                dataBuf e = le_serialize (data e) \<and> length_eep e = of_nat (length (data e))"
      using s "1.prems"(2) by (rule storeSlot_A_serialized)
    show ?thesis
    proof (cases "rwp b \<noteq> 0 \<and> int ((i + 1) * 0x10 + block * blockSize this) \<ge> rwp b")
      case True
      then have "eep' = eep1" using "1.prems"(1) False s r by (simp add: unf)
      then show ?thesis using i1 by simp
    next
      case stop: False
      have "populateBlockData_A_loop this block blockId nextBlock b (i + 1) word' eep1 = Inr eep'"
        using "1.prems"(1) False s r stop by (auto simp: unf split: if_splits)
      with False s r stop show ?thesis by (rule "1.IH" [OF _ _ _ _ _ i1])
    qed
  qed
qed

lemma populateBlockData_A_serialized:
  assumes "populateBlockData_A this blockId = Inr this'"
    and "\<forall>k e. eepData this k = Some e \<longrightarrow>
                dataBuf e = le_serialize (data e) \<and> length_eep e = of_nat (length (data e))"
  shows "\<forall>k e. eepData this' k = Some e \<longrightarrow>
                dataBuf e = le_serialize (data e) \<and> length_eep e = of_nat (length (data e))"
proof -
  from assms(1) obtain nb blk b word eep where
    l: "populateBlockData_A_loop this blk blockId nb b 4 word (eepData this) = Inr eep"
    and t: "this' = this\<lparr>eepData := eep\<rparr>"
    by (auto simp: populateBlockData_A_def Let_def split: if_splits option.splits sum.splits)
  from populateBlockData_A_loop_serialized [OF l assms(2)] t show ?thesis by simp
qed

lemma populateAll_A_serialized:
  assumes "populateAll_A this is = Inr this'"
    and "\<forall>k e. eepData this k = Some e \<longrightarrow>
                dataBuf e = le_serialize (data e) \<and> length_eep e = of_nat (length (data e))"
  shows "\<forall>k e. eepData this' k = Some e \<longrightarrow>
                dataBuf e = le_serialize (data e) \<and> length_eep e = of_nat (length (data e))"
  using assms
proof (induction "is" arbitrary: this)
  case Nil
  then show ?case by simp
next
  case (Cons i "is")
  from Cons.prems(1) obtain t1 where p: "populateBlockData_A this i = Inr t1"
    and q: "populateAll_A t1 is = Inr this'"
    by (auto split: sum.splits)
  from q populateBlockData_A_serialized [OF p Cons.prems(2)] show ?case by (rule Cons.IH)
qed

text \<open>
  Family A keeps the byte buffer in step with the words: for every record of the result
  of the family A constructor, the byte buffer is the little-endian serialization of the
  words of the record, its length is four times the length field of the record, and the
  length field is the number of words.
\<close>

lemma record_bytes_serialize_words:
  assumes "Emu_V850e2 dfBuf = Inr this" and "eepData this k = Some e"
  shows "dataBuf e = le_serialize (data e)
         \<and> of_nat (length (dataBuf e)) = length_eep e * 4
         \<and> length_eep e = of_nat (length (data e))"
proof -
  from assms(1) obtain this0 :: "EepData NecEmulator" and bd ab where
    n: "NecEmulator_new dfBuf BLOCK_SIZE_A = Inr this0"
    and p: "populateAll_A (this0\<lparr>blockData := bd, activeBlocks := ab\<rparr>) [0..<length ab] = Inr this"
    by (auto simp: Emu_V850e2_def split: sum.splits)
  have "eepData this0 = Map.empty"
    using n by (auto simp: NecEmulator_new_def split: if_splits)
  then have "\<forall>k e. eepData (this0\<lparr>blockData := bd, activeBlocks := ab\<rparr>) k = Some e \<longrightarrow>
                dataBuf e = le_serialize (data e) \<and> length_eep e = of_nat (length (data e))"
    by simp
  with p have "\<forall>k e. eepData this k = Some e \<longrightarrow>
                dataBuf e = le_serialize (data e) \<and> length_eep e = of_nat (length (data e))"
    by (rule populateAll_A_serialized)
  with assms(2) have "dataBuf e = le_serialize (data e)"
    and "length_eep e = of_nat (length (data e))" by blast+
  then show ?thesis by (simp add: length_le_serialize)
qed

lemma record_two_serialized:
  "Emu_V850e2 image_two = Inr (scanned_two\<lparr>eepData := [5 \<mapsto> record_two]\<rparr>)
   \<and> eepData (scanned_two\<lparr>eepData := [5 \<mapsto> record_two]\<rparr>) 5 = Some record_two
   \<and> data record_two = [8, 7]
   \<and> dataBuf record_two = le_serialize (data record_two)
   \<and> of_nat (length (dataBuf record_two)) = length_eep record_two * 4
   \<and> length_eep record_two = of_nat (length (data record_two))"
proof -
  have a: "eepData (scanned_two\<lparr>eepData := [5 \<mapsto> record_two]\<rparr>) 5 = Some record_two" by simp
  have d: "data record_two = [8, 7]" by (simp add: record_two_def)
  from record_bytes_serialize_words [OF image_two_result a] image_two_result a d
  show ?thesis by blast
qed

section \<open>Family B: records\<close>

lemma table_numbers:
  "js_and 0 0xffff = 0" "js_shr 0 0x10 = 0" "js_and 1 0xffff = 1" "js_shr 1 0x10 = 0"
  "js_shr 0x00080010 16 = 8" "js_and 0x00080010 0xffff = 0x10"
  "js_shr 0x07F80010 0x10 = 0x7f8" "js_and 0x07F80010 0xffff = 0x10"
  "js_shr 0x07F00010 0x10 = 0x7f0" "js_and 0x07F00010 0xffff = 0x10"
  by (simp_all add: js_shr_def ToInt32_def js_and_ffff)

lemma codeImage_table: "getDataTable (codeImage 8 0) 0 = Inr table_B"
proof -
  have r: "readUint32 (codeImage 8 0) 0 True = Inr 0"
     "readUint32 (codeImage 8 0) 4 True = Inr 0x10"
     "readUint32 (codeImage 8 0) 8 True = Inr 0"
     "readUint32 (codeImage 8 0) 0xc True = Inr 1"
    by (simp_all add: readUint32_le32 codeImage_def le32_def)
  show ?thesis
    by (simp add: getDataTable_def r table_numbers table_B_def) (simp add: codeImage_def)
qed

lemma imageB_setup: "Emu_RH850_setup (imageB g) (codeImage 8 0) 0 = Inr (loaded_B g)"
proof -
  let ?base = "\<lparr>dfBuffer = imageB g, eepData = Map.empty, blockData = Map.empty,
                nBlocks = 1, blockSize = BLOCK_SIZE_B, activeBlocks = []\<rparr> :: nat NecEmulator"
  let ?t = "NecEmulator.extend ?base (Emu_RH850.fields (codeImage 8 0) 0 table_B [])"
  have n: "NecEmulator_new (imageB g) BLOCK_SIZE_B = Inr ?base"
    by (simp add: NecEmulator_new_def length_imageB BLOCK_SIZE_B_def)
  have c: "buf_copy (codeImage 8 0) (replicate 4 0) 0 0x10 0x14 = Inr [0x10, 0, 8, 0]"
    by (simp add: buf_copy_def codeImage_def)
  have r: "readUint32 [0x10, 0, 8, 0] (int 0) True = Inr 0x00080010"
    using readUint32_le32_nat [of 0 "[0x10, 0, 8, 0]"] by (simp add: le32_def)
  have l: "populateDataInfoWTable_loop [0x10, 0, 8, 0] 0 Map.empty [] = Inr ([0x10 \<mapsto> 0], [stub_B])"
    apply (subst populateDataInfoWTable_loop.simps)
    apply (subst populateDataInfoWTable_loop.simps)
    using r apply (simp add: table_numbers buf_alloc_def stub_B_def BLOCK_SIZE_B_def)
    done
  have p: "populateDataInfoWTable ?t = Inr (?t\<lparr>eepData := [0x10 \<mapsto> 0], heap := [stub_B]\<rparr>)"
    by (simp add: populateDataInfoWTable_def extend_fields table_B_def buf_alloc_def c l)
  have e: "?t\<lparr>eepData := [0x10 \<mapsto> 0], heap := [stub_B]\<rparr> = loaded_B g"
    by (simp add: loaded_B_def NecEmulator.defs Emu_RH850.defs)
  show ?thesis
    using p e by (simp add: Emu_RH850_setup_def n codeImage_table)
qed

lemma loaded_B_catalog: "getBlocksData_B (loaded_B g) = Inr [0 \<mapsto> block_B g]"
proof -
  let ?t = "loaded_B g"
  have l: "length (imageB g) = 0x800" by (rule length_imageB)
  have f: "dfBuffer ?t = imageB g" "blockSize ?t = 0x800" "nBlocks ?t = 1"
    by (simp_all add: loaded_B_def BLOCK_SIZE_B_def)
  have p1: "length (imageB g) = BLOCK_SIZE_B" by (simp add: l BLOCK_SIZE_B_def)
  have v: "isValidBlock_B (imageB g) = Inr True"
    unfolding isValidBlock_B_spec [OF p1] by (simp add: imageB_flags)
  have "getBlocksData ?t isValidBlock_B 0x10 0x14 1 =
     Inr [0 \<mapsto> \<lparr>id_blk = 0, isValid = True, eraseCount = le24 (dfBuffer ?t) (nat 0x10),
                 rwp = le24 (dfBuffer ?t) (nat 0x14) * 1, buf = dfBuffer ?t\<rparr>]"
    by (rule single_block_catalog) (simp_all add: f l v imageB_header)
  then show ?thesis by (simp add: getBlocksData_B_def f imageB_header block_B_def)
qed

lemma imageB_scan:
  "Emu_RH850_new (imageB g) (codeImage 8 0) 0 = populateBlockData_B_loop (scanned_B g stub_B) (block_B g) 0x44"
proof -
  have a: "getActiveBlocksOrderedList ((loaded_B g)\<lparr>blockData := [0 \<mapsto> block_B g]\<rparr>) = Inr [0]"
    by (simp add: getActiveBlocksOrderedList_def loaded_B_def block_B_def)
  have s: "(loaded_B g)\<lparr>blockData := [0 \<mapsto> block_B g], activeBlocks := [0]\<rparr> = scanned_B g stub_B"
    by (simp add: scanned_B_def loaded_B_def)
  have p: "populateBlockData_B (scanned_B g stub_B) 0
             = populateBlockData_B_loop (scanned_B g stub_B) (block_B g) 0x44"
    by (simp add: populateBlockData_B_def scanned_B_def loaded_B_def Let_def block_B_def)
  show ?thesis
    by (simp add: Emu_RH850_new_def imageB_setup Emu_RH850_scan_def loaded_B_catalog a s p
        split: sum.splits)
qed

lemma imageB_words:
  "le32 (imageB g) 0x44 = 0x07F80010" "le32 (imageB g) 0x40 = 0x55555555"
  "le32 (imageB g) 0x3c = 0x55555555" "le32 (imageB g) 0x38 = 0x55555555"
  "le32 (imageB g) 0x34 = 0x07F00010"
  "le32 (imageB g) 0x24 = 0" "le32 (imageB g) 0x20 = 0" "le32 (imageB g) 0x1c = 0"
  "le32 (imageB g) 0x18 = 0"
  "le32 (imageB g) 0x7f8 = 0x11111111" "le32 (imageB g) 0x7f4 = 0x22222222"
  "le32 (imageB g) 0x7f0 = 0x33333333" "le32 (imageB g) 0x7ec = 0x44444444"
  by (simp_all add: imageB_def le32_def nth_append)

lemma imageB_guards:
  "le32 (imageB 0) 0x30 = 0" "le32 (imageB 0) 0x2c = 0" "le32 (imageB 0) 0x28 = 0"
  "le32 (imageB 0x55) 0x30 = 0x55555555" "le32 (imageB 0x55) 0x2c = 0x55555555"
  "le32 (imageB 0x55) 0x28 = 0x55555555"
  by (simp_all add: imageB_def le32_def nth_append)

lemma imageB_read:
  "a + 4 \<le> 0x800 \<Longrightarrow> readUint32 (imageB g) (int a) True = Inr (le32 (imageB g) a)"
  by (rule readUint32_le32_nat) (simp add: length_imageB)

lemma scanned_B_fields:
  "eepData (scanned_B g e) = [0x10 \<mapsto> 0]" "heap (scanned_B g e) = [e]"
  "buf (block_B g) = imageB g" "id_blk (block_B g) = 0" "rwp (block_B g) = 0x48"
  "(scanned_B g e)\<lparr>heap := [e']\<rparr> = scanned_B g e'"
  by (simp_all add: scanned_B_def loaded_B_def block_B_def)

lemma replicate_four: "replicate 4 x = [x, x, x, x]"
  by (simp add: numeral_eq_Suc)

lemma serialize_B:
  "le_serialize [0x11111111, 0x22222222] = replicate 4 0x11 @ replicate 4 0x22"
  "le_serialize [0x11111111, 0x22222222, 0x33333333, 0x44444444]
     = replicate 4 0x11 @ replicate 4 0x22 @ replicate 4 0x33 @ replicate 4 0x44"
  by (simp_all add: le_serialize_def le_bytes_def replicate_four)

lemma write_newer_B:
  "writeWords [0x11111111, 0x22222222] 0 (replicate 32 0)
     = Inr (replicate 4 0x11 @ replicate 4 0x22 @ replicate 24 0)"
proof -
  have "writeWords [0x11111111, 0x22222222] (int 0) ([] @ replicate 8 0 @ replicate 24 0)
      = Inr ([] @ le_serialize [0x11111111, 0x22222222] @ replicate 24 0)"
    by (rule writeWords_overwrite) simp_all
  moreover have "replicate 8 0 @ replicate 24 0 = (replicate 32 0 :: Buffer)"
    by (simp add: replicate_add [symmetric])
  ultimately show ?thesis by (simp add: serialize_B del: replicate.simps)
qed

lemma write_both_B:
  "writeWords [0x11111111, 0x22222222, 0x33333333, 0x44444444] 0
      (replicate 4 0x11 @ replicate 4 0x22 @ replicate 24 0)
     = Inr (replicate 4 0x11 @ replicate 4 0x22 @ replicate 4 0x33 @ replicate 4 0x44
            @ replicate 16 0)"
proof -
  have "writeWords [0x11111111, 0x22222222, 0x33333333, 0x44444444] (int 0)
          ([] @ (replicate 4 0x11 @ replicate 4 0x22 @ replicate 8 0) @ replicate 16 0)
      = Inr ([] @ le_serialize [0x11111111, 0x22222222, 0x33333333, 0x44444444] @ replicate 16 0)"
    by (rule writeWords_overwrite) simp_all
  moreover have "replicate 8 0 @ replicate 16 0 = (replicate 24 0 :: Buffer)"
    by (simp add: replicate_add [symmetric])
  ultimately show ?thesis by (simp add: serialize_B del: replicate.simps)
qed

lemma imageB_reads:
  "readUint32 (imageB g) 0x44 True = Inr 0x07F80010"
  "readUint32 (imageB g) 0x40 True = Inr 0x55555555"
  "readUint32 (imageB g) 0x3c True = Inr 0x55555555"
  "readUint32 (imageB g) 0x38 True = Inr 0x55555555"
  "readUint32 (imageB g) 0x34 True = Inr 0x07F00010"
  "readUint32 (imageB g) 0x24 True = Inr 0"
  "readUint32 (imageB g) 0x20 True = Inr 0"
  "readUint32 (imageB g) 0x1c True = Inr 0"
  "readUint32 (imageB g) 0x18 True = Inr 0"
  "readUint32 (imageB g) 0x7f8 True = Inr 0x11111111"
  "readUint32 (imageB g) 0x7f4 True = Inr 0x22222222"
  "readUint32 (imageB g) 0x7f0 True = Inr 0x33333333"
  "readUint32 (imageB g) 0x7ec True = Inr 0x44444444"
  using imageB_read [of "0x44" g] imageB_read [of "0x40" g] imageB_read [of "0x3c" g]
    imageB_read [of "0x38" g] imageB_read [of "0x34" g] imageB_read [of "0x24" g]
    imageB_read [of "0x20" g] imageB_read [of "0x1c" g] imageB_read [of "0x18" g]
    imageB_read [of "0x7f8" g] imageB_read [of "0x7f4" g] imageB_read [of "0x7f0" g]
    imageB_read [of "0x7ec" g]
  by (simp_all add: imageB_words)

lemma imageB_guard_reads:
  "readUint32 (imageB 0) 0x30 True = Inr 0"
  "readUint32 (imageB 0) 0x2c True = Inr 0"
  "readUint32 (imageB 0) 0x28 True = Inr 0"
  "readUint32 (imageB 0x55) 0x30 True = Inr 0x55555555"
  "readUint32 (imageB 0x55) 0x2c True = Inr 0x55555555"
  "readUint32 (imageB 0x55) 0x28 True = Inr 0x55555555"
  using imageB_read [of "0x30" 0] imageB_read [of "0x2c" 0] imageB_read [of "0x28" 0]
    imageB_read [of "0x30" "0x55"] imageB_read [of "0x2c" "0x55"] imageB_read [of "0x28" "0x55"]
  by (simp_all add: imageB_guards)

lemma readWords_B_newer:
  "readWords_B (imageB g) 0x7f8 2 0 [] = Inr [0x11111111, 0x22222222]"
  apply (subst readWords_B.simps)
  apply (subst readWords_B.simps)
  apply (subst readWords_B.simps)
  apply (simp add: imageB_reads)
  done

lemma readWords_B_older:
  "readWords_B (imageB g) 0x7f0 2 0 [0x11111111, 0x22222222]
     = Inr [0x11111111, 0x22222222, 0x33333333, 0x44444444]"
  apply (subst readWords_B.simps)
  apply (subst readWords_B.simps)
  apply (subst readWords_B.simps)
  apply (simp add: imageB_reads)
  done

lemma slot_B_newer:
  "readDataEntry_B (scanned_B g stub_B) (block_B g) 0x44 = Inr (scanned_B g newer_B, Some 0)"
  by (simp add: readDataEntry_B_def Let_def scanned_B_fields imageB_reads table_numbers
      ACTIVE_FLAG_def BLOCK_SIZE_B_def stub_B_def readWords_B_newer write_newer_B newer_B_def
      del: writeWords.simps replicate.simps)

lemma slot_B_older:
  "readDataEntry_B (scanned_B 0x55 newer_B) (block_B 0x55) 0x34 = Inr (scanned_B 0x55 both_B, Some 0)"
  by (simp add: readDataEntry_B_def Let_def scanned_B_fields imageB_reads imageB_guard_reads
      table_numbers ACTIVE_FLAG_def BLOCK_SIZE_B_def readWords_B_older write_both_B newer_B_def
      both_B_def del: writeWords.simps replicate.simps)

lemma slot_B_older_unguarded:
  "readDataEntry_B (scanned_B 0 newer_B) (block_B 0) 0x34 = Inr (scanned_B 0 newer_B, None)"
  by (simp add: readDataEntry_B_def Let_def scanned_B_fields imageB_reads imageB_guard_reads
      table_numbers ACTIVE_FLAG_def)

lemma slot_B_header:
  "readDataEntry_B (scanned_B g e) (block_B g) 0x24 = Inr (scanned_B g e, None)"
  by (simp add: readDataEntry_B_def Let_def scanned_B_fields imageB_reads
      table_numbers ACTIVE_FLAG_def)

lemma imageB_single_result:
  "Emu_RH850_new (imageB 0) (codeImage 8 0) 0 = Inr (scanned_B 0 newer_B)"
  unfolding imageB_scan
  apply (subst populateBlockData_B_loop.simps)
  apply (simp add: slot_B_newer scanned_B_fields newer_B_def)
  apply (subst populateBlockData_B_loop.simps)
  apply (simp add: slot_B_older_unguarded [unfolded newer_B_def])
  apply (subst populateBlockData_B_loop.simps)
  apply (simp add: slot_B_header)
  apply (subst populateBlockData_B_loop.simps)
  apply simp
  done

lemma imageB_double_result:
  "Emu_RH850_new (imageB 0x55) (codeImage 8 0) 0 = Inr (scanned_B 0x55 both_B)"
  unfolding imageB_scan
  apply (subst populateBlockData_B_loop.simps)
  apply (simp add: slot_B_newer scanned_B_fields newer_B_def)
  apply (subst populateBlockData_B_loop.simps)
  apply (simp add: slot_B_older [unfolded newer_B_def] scanned_B_fields both_B_def)
  apply (subst populateBlockData_B_loop.simps)
  apply (simp add: slot_B_header)
  apply (subst populateBlockData_B_loop.simps)
  apply simp
  done

text \<open>
  C9 at a family B input.  Over the image \<open>imageB 0\<close>, whose only accepted descriptor is
  the one at 0x44, and the table of \<open>codeImage 8 0\<close>, which declares id 0x10 with the
  encoded length 8, the constructor returns the record of id 0x10 with the length field
  2 and the two words read at 0x7f8 and 0x7f4, and a byte buffer of 32 bytes: the
  little-endian serialization of the two words followed by 24 zero bytes.  The claim
  asks for 8 bytes, as family A allocates them.
\<close>

theorem table_record_bytes_length:
  "Emu_RH850_new (imageB 0) (codeImage 8 0) 0 = Inr (scanned_B 0 newer_B)
   \<and> eepData (scanned_B 0 newer_B) 0x10 = Some 0
   \<and> heap (scanned_B 0 newer_B) ! 0 = newer_B
   \<and> length_eep newer_B = 2
   \<and> data newer_B = [0x11111111, 0x22222222]
   \<and> length (dataBuf newer_B) = 32
   \<and> dataBuf newer_B = le_serialize (data newer_B) @ replicate 24 0
   \<and> dataBuf newer_B \<noteq> le_serialize (data newer_B)"
proof -
  have l: "length (dataBuf newer_B) = 32" by (simp add: newer_B_def)
  have d: "dataBuf newer_B = le_serialize (data newer_B) @ replicate 24 0"
    by (simp add: newer_B_def serialize_B del: replicate.simps)
  have "length (le_serialize (data newer_B)) = 8"
    by (simp add: length_le_serialize newer_B_def)
  with l have n: "dataBuf newer_B \<noteq> le_serialize (data newer_B)" by auto
  show ?thesis
    using imageB_single_result l d n by (simp add: scanned_B_fields) (simp add: newer_B_def)
qed

text \<open>
  C1 at a family B input.  Over the image \<open>imageB 0x55\<close>, which has two accepted
  descriptors for id 0x10, and the table of \<open>codeImage 8 0\<close>, the descriptor at 0x44 is
  met first in the backward walk and fills the record with the words at 0x7f8 and
  0x7f4; the descriptor at 0x34 is met next, when the record already holds data, and
  \<open>readDataEntry\<close> appends the words at 0x7f0 and 0x7ec to the record and rewrites its
  word index and its reference address (lemmas \<open>slot_B_newer\<close> and \<open>slot_B_older\<close>).
  The result of the constructor is the record as the older descriptor left it: four
  words for a record of length 2, with the word index 0x7f0 and the reference address
  0x34 of the older descriptor.
\<close>

theorem duplicate_descriptor_modifies_record:
  "Emu_RH850_new (imageB 0x55) (codeImage 8 0) 0 = Inr (scanned_B 0x55 both_B)
   \<and> le32 (imageB 0x55) 0x44 = 0x07F80010 \<and> le32 (imageB 0x55) 0x34 = 0x07F00010
   \<and> eepData (scanned_B 0x55 both_B) 0x10 = Some 0
   \<and> heap (scanned_B 0x55 both_B) ! 0 = both_B
   \<and> length_eep both_B = 2
   \<and> data both_B = [0x11111111, 0x22222222, 0x33333333, 0x44444444]
   \<and> widx both_B = 0x7f0 \<and> addr both_B = 0x34"
  using imageB_double_result
  by (simp add: scanned_B_fields imageB_words) (simp add: both_B_def)

end
